theory Spec2Isabelle
  imports Complex_Main "HOL-Library.Char_ord" "HOL-Library.List_Lexorder" "HOL-Library.AList"
begin

section \<open>Data model (types.ts)\<close>

text \<open>
  Grid coordinates are integers, connection counts are natural numbers and node ids are
  strings, compared with the lexicographic order on character codes as JavaScript does.
  The field \<open>id\<close> of a node is \<open>nodeId\<close> here (\<open>id\<close> is the identity function of HOL).
\<close>

record NodeData =
  nodeId :: string
  x :: int
  y :: int
  requiredConnections :: nat
  currentConnections :: nat

record EdgeData =
  nodeA :: string
  nodeB :: string
  count :: nat

text \<open>
  A \<open>House\<close> is a scene object that carries a \<open>NodeData\<close>. The source compares houses
  with \<open>===\<close>, that is by object identity; \<open>objRef\<close> stands for that identity.
\<close>

record House =
  objRef :: nat
  dataModel :: NodeData

datatype error = Error string | TypeError | RangeError

section \<open>CableManager\<close>

text \<open>
  The field \<open>edges\<close> is a JavaScript \<open>Map\<close> from key to \<open>EdgeData\<close>: an association
  list in insertion order. \<open>Map.set\<close> overwrites the value of a present key in place and
  appends an absent one (\<open>AList.update\<close>); \<open>Map.delete\<close> removes the key
  (\<open>AList.delete\<close>); \<open>Map.get\<close> is \<open>map_of\<close>.
\<close>

type_synonym edge_map = "(string \<times> EdgeData) list"

definition reset :: "edge_map \<Rightarrow> edge_map" where
  "reset edges = []"

definition getEdgeKey :: "string \<Rightarrow> string \<Rightarrow> string" where
  "getEdgeKey idA idB = (if idA < idB then idA @ ''-'' @ idB else idB @ ''-'' @ idA)"

definition hasConnection :: "edge_map \<Rightarrow> string \<Rightarrow> string \<Rightarrow> nat" where
  "hasConnection edges idA idB =
     (case map_of edges (getEdgeKey idA idB) of None \<Rightarrow> 0 | Some e \<Rightarrow> count e)"

definition toggleConnection :: "House \<Rightarrow> House \<Rightarrow> edge_map \<Rightarrow> nat \<times> edge_map" where
  "toggleConnection a b edges =
     (let key = getEdgeKey (nodeId (dataModel a)) (nodeId (dataModel b));
          current = map_of edges key;
          newCount = (case current of
                        None \<Rightarrow> 1
                      | Some c \<Rightarrow> if count c = 1 then 2 else 0)
      in if newCount = 0 then (newCount, AList.delete key edges)
         else (newCount,
               AList.update key
                 \<lparr>nodeA = nodeId (dataModel a), nodeB = nodeId (dataModel b), count = newCount\<rparr>
                 edges))"

definition setConnection :: "House \<Rightarrow> House \<Rightarrow> nat \<Rightarrow> edge_map \<Rightarrow> edge_map" where
  "setConnection a b cnt edges =
     (let key = getEdgeKey (nodeId (dataModel a)) (nodeId (dataModel b))
      in if cnt = 0 then AList.delete key edges
         else AList.update key
                \<lparr>nodeA = nodeId (dataModel a), nodeB = nodeId (dataModel b), count = cnt\<rparr>
                edges)"

definition getAllEdges :: "edge_map \<Rightarrow> EdgeData list" where
  "getAllEdges edges = map snd edges"

text \<open>\<open>allNodes.find(n => n.dataModel.id === id)\<close>: the first house with that id, if any.\<close>

definition findHouse :: "House list \<Rightarrow> string \<Rightarrow> House option" where
  "findHouse allNodes i = List.find (\<lambda>n. nodeId (dataModel n) = i) allNodes"

text \<open>Step 2 of \<open>canConnect\<close>: the loop over \<open>allNodes\<close>; \<open>True\<close> is its \<open>return false\<close>.\<close>

primrec nodeBetweenLoop :: "House \<Rightarrow> House \<Rightarrow> House list \<Rightarrow> bool" where
  "nodeBetweenLoop a b [] = False"
| "nodeBetweenLoop a b (other # rest) =
     (if objRef other = objRef a \<or> objRef other = objRef b then nodeBetweenLoop a b rest
      else
        let dA = dataModel a; dB = dataModel b; dO = dataModel other;
            isVertical = (x dA = x dB)
        in if isVertical then
             (if x dO = x dA \<and> ((y dO > y dA \<and> y dO < y dB) \<or> (y dO > y dB \<and> y dO < y dA))
              then True else nodeBetweenLoop a b rest)
           else
             (if y dO = y dA \<and> ((x dO > x dA \<and> x dO < x dB) \<or> (x dO > x dB \<and> x dO < x dA))
              then True else nodeBetweenLoop a b rest))"

text \<open>
  Step 3 of \<open>canConnect\<close>: the loop over the placed edges. \<open>Inr True\<close> is its
  \<open>return false\<close> (a crossing was found). Reading \<open>dataModel\<close> of a house that
  \<open>find\<close> did not find raises a \<open>TypeError\<close>.
\<close>

primrec crossingLoop :: "House \<Rightarrow> House \<Rightarrow> House list \<Rightarrow> EdgeData list \<Rightarrow> error + bool" where
  "crossingLoop a b allNodes [] = Inr False"
| "crossingLoop a b allNodes (edge # rest) =
     (let dA = dataModel a; dB = dataModel b;
          isVertical = (x dA = x dB);
          newMinX = min (x dA) (x dB); newMaxX = max (x dA) (x dB);
          newMinY = min (y dA) (y dB); newMaxY = max (y dA) (y dB);
          n1 = findHouse allNodes (nodeA edge);
          n2 = findHouse allNodes (nodeB edge)
      in if nodeA edge = nodeId dA \<or> nodeA edge = nodeId dB \<or>
            nodeB edge = nodeId dA \<or> nodeB edge = nodeId dB
         then crossingLoop a b allNodes rest
         else
           (case n1 of
              None \<Rightarrow> Inl TypeError
            | Some h1 \<Rightarrow>
               (case n2 of
                  None \<Rightarrow> Inl TypeError
                | Some h2 \<Rightarrow>
                   (let d1 = dataModel h1; d2 = dataModel h2;
                        eIsVert = (x d1 = x d2)
                    in if isVertical \<and> \<not> eIsVert then
                         (let eY = y d1; eMinX = min (x d1) (x d2); eMaxX = max (x d1) (x d2)
                          in if x dA > eMinX \<and> x dA < eMaxX \<and> eY > newMinY \<and> eY < newMaxY
                             then Inr True else crossingLoop a b allNodes rest)
                       else if \<not> isVertical \<and> eIsVert then
                         (let eX = x d1; eMinY = min (y d1) (y d2); eMaxY = max (y d1) (y d2)
                          in if y dA > eMinY \<and> y dA < eMaxY \<and> eX > newMinX \<and> eX < newMaxX
                             then Inr True else crossingLoop a b allNodes rest)
                       else crossingLoop a b allNodes rest))))"

definition canConnect :: "House \<Rightarrow> House \<Rightarrow> House list \<Rightarrow> edge_map \<Rightarrow> error + bool" where
  "canConnect a b allNodes edges =
     (let dA = dataModel a; dB = dataModel b
      in if x dA \<noteq> x dB \<and> y dA \<noteq> y dB then Inr False
         else if nodeBetweenLoop a b allNodes then Inr False
         else (case crossingLoop a b allNodes (getAllEdges edges) of
                 Inl e \<Rightarrow> Inl e
               | Inr crossing \<Rightarrow> Inr (\<not> crossing)))"


section \<open>GameScene.checkWinCondition\<close>

text \<open>
  \<open>updateConnectionCount\<close> stores the count in the house's data model (its other effect,
  the colour of the label, is not modelled).
\<close>

definition updateConnectionCount :: "nat \<Rightarrow> House \<Rightarrow> House" where
  "updateConnectionCount cnt h = h\<lparr>dataModel := (dataModel h)\<lparr>currentConnections := cnt\<rparr>\<rparr>"

text \<open>
  \<open>const h = houses.find(h => h.dataModel.id === i); if (h) h.updateConnectionCount(
  h.dataModel.currentConnections + c)\<close>: the first house with id \<open>i\<close>, if there is one,
  is updated in place.
\<close>

primrec addConnections :: "string \<Rightarrow> nat \<Rightarrow> House list \<Rightarrow> House list" where
  "addConnections i c [] = []"
| "addConnections i c (h # hs) =
     (if nodeId (dataModel h) = i
      then updateConnectionCount (currentConnections (dataModel h) + c) h # hs
      else h # addConnections i c hs)"

definition sumUp :: "EdgeData \<Rightarrow> House list \<Rightarrow> House list" where
  "sumUp e houses = addConnections (nodeB e) (count e) (addConnections (nodeA e) (count e) houses)"

text \<open>
  The adjacency list is a \<open>Map\<close> from id to an array of ids, filled edge by edge: both
  endpoints get an entry, and each is pushed onto the other's array.
\<close>

type_synonym adjacency = "(string \<times> string list) list"

definition pushAdj :: "string \<Rightarrow> string \<Rightarrow> adjacency \<Rightarrow> adjacency" where
  "pushAdj k n adj = (case map_of adj k of None \<Rightarrow> adj | Some ns \<Rightarrow> AList.update k (ns @ [n]) adj)"

definition addAdjacency :: "EdgeData \<Rightarrow> adjacency \<Rightarrow> adjacency" where
  "addAdjacency e adj =
     (let adj1 = (if map_of adj (nodeA e) = None then AList.update (nodeA e) [] adj else adj);
          adj2 = (if map_of adj1 (nodeB e) = None then AList.update (nodeB e) [] adj1 else adj1);
          adj3 = pushAdj (nodeA e) (nodeB e) adj2
      in pushAdj (nodeB e) (nodeA e) adj3)"

text \<open>\<open>adj.get(cur) || []\<close>\<close>

definition neighbors :: "adjacency \<Rightarrow> string \<Rightarrow> string list" where
  "neighbors adj cur = (case map_of adj cur of None \<Rightarrow> [] | Some ns \<Rightarrow> ns)"

text \<open>
  The inner \<open>for\<close> loop of the search. The set \<open>visited\<close> is kept as the list of its
  elements in insertion order; an id is added only when absent, so the list has no
  duplicates and its length is the size of the set.
\<close>

primrec visitNeighbors :: "string list \<Rightarrow> string list \<times> string list \<Rightarrow> string list \<times> string list" where
  "visitNeighbors [] vq = vq"
| "visitNeighbors (n # ns) vq =
     (if n \<notin> set (fst vq) then visitNeighbors ns (fst vq @ [n], snd vq @ [n])
      else visitNeighbors ns vq)"

lemma visitNeighbors_shape:
  "\<exists>new. visitNeighbors ns (v, q) = (v @ new, q @ new) \<and> set new = set ns - set v \<and>
         (distinct v \<longrightarrow> distinct (v @ new))"
proof (induction ns arbitrary: v q)
  case Nil
  show ?case by simp
next
  case (Cons n ns)
  show ?case
  proof (cases "n \<in> set v")
    case True
    with Cons.IH[of v q] show ?thesis by auto
  next
    case False
    from Cons.IH[of "v @ [n]" "q @ [n]"] obtain new where
      new: "visitNeighbors ns (v @ [n], q @ [n]) = ((v @ [n]) @ new, (q @ [n]) @ new)"
           "set new = set ns - set (v @ [n])"
           "distinct (v @ [n]) \<longrightarrow> distinct ((v @ [n]) @ new)"
      by blast
    have "visitNeighbors (n # ns) (v, q) = (v @ (n # new), q @ (n # new))"
      using False new(1) by simp
    moreover have "set (n # new) = set (n # ns) - set v"
      using False new(2) by auto
    moreover have "distinct v \<longrightarrow> distinct (v @ (n # new))"
      using False new(3) by auto
    ultimately show ?thesis by blast
  qed
qed

text \<open>Every id that occurs in some array of the adjacency list.\<close>

definition adjRange :: "adjacency \<Rightarrow> string set" where
  "adjRange adj = (\<Union>p\<in>set adj. set (snd p))"

lemma finite_adjRange: "finite (adjRange adj)"
  by (simp add: adjRange_def)

lemma neighbors_adjRange: "set (neighbors adj cur) \<subseteq> adjRange adj"
proof (cases "map_of adj cur")
  case None
  then show ?thesis by (simp add: neighbors_def)
next
  case (Some ns)
  then have "(cur, ns) \<in> set adj" by (rule map_of_SomeD)
  then have "set ns \<subseteq> adjRange adj" by (force simp: adjRange_def)
  with Some show ?thesis by (simp add: neighbors_def)
qed

text \<open>
  The \<open>while (queue.length > 0)\<close> loop. It ends because each round either marks a new id
  of the adjacency list as visited or shortens the queue.
\<close>

function bfsLoop :: "adjacency \<Rightarrow> string list \<Rightarrow> string list \<Rightarrow> string list" where
  "bfsLoop adj [] visited = visited"
| "bfsLoop adj (cur # queue) visited =
     bfsLoop adj (snd (visitNeighbors (neighbors adj cur) (visited, queue)))
                 (fst (visitNeighbors (neighbors adj cur) (visited, queue)))"
  by pat_completeness auto
termination
proof (relation "measures [\<lambda>(adj, queue, visited). card (adjRange adj - set visited),
                           \<lambda>(adj, queue, visited). length queue]", goal_cases)
  case 1
  show ?case by simp
next
  case (2 adj cur queue visited)
  obtain new where new:
    "visitNeighbors (neighbors adj cur) (visited, queue) = (visited @ new, queue @ new)"
    "set new = set (neighbors adj cur) - set visited"
    using visitNeighbors_shape[of "neighbors adj cur" visited queue] by blast
  show ?case
  proof (cases "new = []")
    case True
    with new(1) show ?thesis by simp
  next
    case False
    then obtain n where n: "n \<in> set new" by (cases new) auto
    with new(2) neighbors_adjRange[of adj cur]
    have "n \<in> adjRange adj - set visited" "n \<notin> adjRange adj - set (visited @ new)"
      by auto
    then have "adjRange adj - set (visited @ new) \<subset> adjRange adj - set visited"
      by auto
    then have "card (adjRange adj - set (visited @ new)) < card (adjRange adj - set visited)"
      by (intro psubset_card_mono) (simp_all add: finite_adjRange)
    with new(1) show ?thesis by simp
  qed
qed

text \<open>
  \<open>checkWinCondition\<close> returns the houses with their recomputed counts and whether
  \<open>victory()\<close> was called.
\<close>

definition checkWinCondition :: "House list \<Rightarrow> EdgeData list \<Rightarrow> House list \<times> bool" where
  "checkWinCondition houses edges =
     (let houses1 = map (updateConnectionCount 0) houses;
          houses2 = fold sumUp edges houses1;
          allCountsCorrect =
            list_all (\<lambda>h. currentConnections (dataModel h) = requiredConnections (dataModel h))
              houses2
      in if \<not> allCountsCorrect then (houses2, False)
         else case houses2 of
                [] \<Rightarrow> (houses2, False)
              | h0 # _ \<Rightarrow>
                 (let startId = nodeId (dataModel h0);
                      adj = fold addAdjacency edges [];
                      visited = bfsLoop adj [startId] [startId];
                      allConnected = (length visited = length houses2)
                  in (houses2, allConnected)))"

section \<open>PuzzleGenerator\<close>

datatype Difficulty = EASY | MEDIUM | HARD

record DifficultyConfig =
  gridSize :: int
  nodeCount :: "int \<times> int"
  maxConnections :: nat
  scale :: real

fun DIFFICULTY_SETTINGS :: "Difficulty \<Rightarrow> DifficultyConfig" where
  "DIFFICULTY_SETTINGS EASY =
     \<lparr>gridSize = 5, nodeCount = (6, 9), maxConnections = 4, scale = 1\<rparr>"
| "DIFFICULTY_SETTINGS MEDIUM =
     \<lparr>gridSize = 7, nodeCount = (8, 12), maxConnections = 6, scale = 85 / 100\<rparr>"
| "DIFFICULTY_SETTINGS HARD =
     \<lparr>gridSize = 10, nodeCount = (12, 18), maxConnections = 8, scale = 7 / 10\<rparr>"

subsection \<open>What the generator takes from its runtime\<close>

text \<open>
  One attempt of the generator reads three things from the JavaScript runtime:
  \<^item> \<open>mathRandom k\<close>: the value, in \<open>[0, 1)\<close>, of the \<open>k\<close>-th call of \<open>Math.random()\<close>
    that \<open>tryGenerate\<close> makes itself;
  \<^item> \<open>sortOrder\<close>: the order in which \<open>sort\<close>, called with a comparator that answers
    at random, leaves the candidate edges (some permutation of them, see \<open>permuteBy\<close>);
  \<^item> \<open>stackLimit\<close>: the number of nested calls of \<open>DisjointSet.find\<close> the call stack
    has room for; one more raises a \<open>RangeError\<close>.
\<close>

record runtime =
  mathRandom :: "nat \<Rightarrow> real"
  sortOrder :: "nat \<Rightarrow> nat"
  stackLimit :: nat

text \<open>The decimal digits of a number, for the template strings \<open>`n_${i}`\<close> and \<open>`${x},${y}`\<close>.\<close>

definition digitChar :: "nat \<Rightarrow> char" where
  "digitChar d = ''0123456789'' ! d"

function digits :: "nat \<Rightarrow> string" where
  "digits n = (if n < 10 then [digitChar n] else digits (n div 10) @ [digitChar (n mod 10)])"
  by pat_completeness auto
termination
  by (relation "measure (\<lambda>n. n)") auto

declare digits.simps [simp del]

definition showInt :: "int \<Rightarrow> string" where
  "showInt k = (if k < 0 then ''-'' @ digits (nat (- k)) else digits (nat k))"

subsection \<open>Step 1: placing the nodes\<close>

text \<open>
  The state of the placement is the array \<open>nodes\<close>, the set \<open>occupied\<close> (the list of its
  keys) and the number of \<open>Math.random()\<close> values read so far. \<open>placeLoop\<close> is the
  \<open>while (!placed && placeAttempts < 50)\<close> loop for the node of index \<open>i\<close>.
\<close>

type_synonym placement = "NodeData list \<times> string list \<times> nat"

function placeLoop :: "runtime \<Rightarrow> int \<Rightarrow> nat \<Rightarrow> bool \<Rightarrow> nat \<Rightarrow> placement \<Rightarrow> placement" where
  "placeLoop rt grid i placed placeAttempts (nodes, occupied, pos) =
     (if \<not> placed \<and> placeAttempts < 50 then
        (let px = \<lfloor>mathRandom rt pos * of_int grid\<rfloor>;
             py = \<lfloor>mathRandom rt (pos + 1) * of_int grid\<rfloor>;
             key = showInt px @ '','' @ showInt py
         in if key \<notin> set occupied
            then placeLoop rt grid i True (placeAttempts + 1)
                   (nodes @ [\<lparr>nodeId = ''n_'' @ digits i, x = px, y = py,
                               requiredConnections = 0, currentConnections = 0\<rparr>],
                    occupied @ [key], pos + 2)
            else placeLoop rt grid i placed (placeAttempts + 1) (nodes, occupied, pos + 2))
      else (nodes, occupied, pos))"
  by pat_completeness auto
termination
  by (relation "measure (\<lambda>(rt, grid, i, placed, placeAttempts, st). 50 - placeAttempts)") auto

declare placeLoop.simps [simp del]

definition placeNodes :: "runtime \<Rightarrow> int \<Rightarrow> int \<Rightarrow> placement \<Rightarrow> placement" where
  "placeNodes rt grid numNodes st =
     fold (\<lambda>i st. placeLoop rt grid i False 0 st) [0..<nat numNodes] st"

subsection \<open>Helpers\<close>

primrec isNodeBetween :: "NodeData \<Rightarrow> NodeData \<Rightarrow> NodeData list \<Rightarrow> bool" where
  "isNodeBetween n1 n2 [] = False"
| "isNodeBetween n1 n2 (node # rest) =
     (if nodeId node = nodeId n1 \<or> nodeId node = nodeId n2 then isNodeBetween n1 n2 rest
      else if x n1 = x n2 then
        (if x node = x n1 \<and> ((y node > y n1 \<and> y node < y n2) \<or> (y node > y n2 \<and> y node < y n1))
         then True else isNodeBetween n1 n2 rest)
      else
        (if y node = y n1 \<and> ((x node > x n1 \<and> x node < x n2) \<or> (x node > x n2 \<and> x node < x n1))
         then True else isNodeBetween n1 n2 rest))"

definition linesCross :: "NodeData \<Rightarrow> NodeData \<Rightarrow> NodeData \<Rightarrow> NodeData \<Rightarrow> bool" where
  "linesCross a1 a2 b1 b2 =
     (let isAVert = (x a1 = x a2); isBVert = (x b1 = x b2)
      in if isAVert = isBVert then False
         else if isAVert then
           (let xA = x a1; minYA = min (y a1) (y a2); maxYA = max (y a1) (y a2);
                yB = y b1; minXB = min (x b1) (x b2); maxXB = max (x b1) (x b2)
            in (xA > minXB \<and> xA < maxXB) \<and> (yB > minYA \<and> yB < maxYA))
         else
           (let yA = y a1; minXA = min (x a1) (x a2); maxXA = max (x a1) (x a2);
                xB = x b1; minYB = min (y b1) (y b2); maxYB = max (y b1) (y b2)
            in (yA > minYB \<and> yA < maxYB) \<and> (xB > minXA \<and> xB < maxXA)))"

text \<open>\<open>nodes.find(n => n.id === i)\<close>\<close>

definition findNode :: "NodeData list \<Rightarrow> string \<Rightarrow> NodeData option" where
  "findNode nodes i = List.find (\<lambda>n. nodeId n = i) nodes"

text \<open>
  The closure \<open>isCrossing\<close>: \<open>edges.some(...)\<close> over the edges accepted so far.
  \<open>linesCross\<close> reads the coordinates of both endpoints, so an endpoint that \<open>find\<close> did
  not find raises a \<open>TypeError\<close>.
\<close>

primrec isCrossing :: "NodeData list \<Rightarrow> EdgeData list \<Rightarrow> NodeData \<Rightarrow> NodeData \<Rightarrow> error + bool" where
  "isCrossing nodes [] n1 n2 = Inr False"
| "isCrossing nodes (e # es) n1 n2 =
     (case findNode nodes (nodeA e) of
        None \<Rightarrow> Inl TypeError
      | Some eU \<Rightarrow>
         (case findNode nodes (nodeB e) of
            None \<Rightarrow> Inl TypeError
          | Some eV \<Rightarrow>
             if linesCross n1 n2 eU eV then Inr True else isCrossing nodes es n1 n2))"

subsection \<open>DisjointSet\<close>

text \<open>The field \<open>count\<close> of the class is \<open>setCount\<close> here (\<open>count\<close> is the field of an edge).\<close>

record DisjointSet =
  parent :: "nat list"
  setCount :: int

definition newDisjointSet :: "nat \<Rightarrow> DisjointSet" where
  "newDisjointSet n = \<lparr>parent = [0..<n], setCount = int n\<rparr>"

text \<open>
  \<open>find\<close> is recursive and compresses the path on the way back. Its first argument is
  the room left on the call stack. The indices it is given are indices of \<open>parent\<close>; for
  an index outside the array the model stops with a \<open>TypeError\<close> (JavaScript would go on
  with \<open>undefined\<close>), and \<open>tryGenerate_never_undefined\<close> below shows that the generator
  never gets there.
\<close>

fun ds_find :: "nat \<Rightarrow> nat list \<Rightarrow> nat \<Rightarrow> error + (nat \<times> nat list)" where
  "ds_find 0 par i = Inl RangeError"
| "ds_find (Suc depth) par i =
     (if i < length par then
        (if par ! i = i then Inr (i, par)
         else case ds_find depth par (par ! i) of
                Inl e \<Rightarrow> Inl e
              | Inr (r, par') \<Rightarrow> Inr (r, par'[i := r]))
      else Inl TypeError)"

definition ds_union :: "nat \<Rightarrow> DisjointSet \<Rightarrow> nat \<Rightarrow> nat \<Rightarrow> error + DisjointSet" where
  "ds_union depth ds i j =
     (case ds_find depth (parent ds) i of
        Inl e \<Rightarrow> Inl e
      | Inr (rootI, par1) \<Rightarrow>
         (case ds_find depth par1 j of
            Inl e \<Rightarrow> Inl e
          | Inr (rootJ, par2) \<Rightarrow>
             if rootI \<noteq> rootJ
             then Inr \<lparr>parent = par2[rootI := rootJ], setCount = setCount ds - 1\<rparr>
             else Inr \<lparr>parent = par2, setCount = setCount ds\<rparr>))"

subsection \<open>Step 2: the candidate edges\<close>

record PotentialEdge =
  u :: NodeData
  v :: NodeData
  dist :: int

definition potentialEdgesOf :: "NodeData list \<Rightarrow> PotentialEdge list" where
  "potentialEdgesOf ns =
     concat (map (\<lambda>i. concat (map (\<lambda>j.
        (let n1 = ns ! i; n2 = ns ! j
         in if x n1 \<noteq> x n2 \<and> y n1 \<noteq> y n2 then []
            else if isNodeBetween n1 n2 ns then []
            else [\<lparr>u = n1, v = n2, dist = \<bar>x n1 - x n2\<bar> + \<bar>y n1 - y n2\<bar>\<rparr>]))
        [i + 1..<length ns])) [0..<length ns])"

text \<open>
  \<open>potentialEdges.sort(() => Math.random() - 0.5)\<close>: the comparator is not consistent,
  so the order of the result is up to the engine; the result is a permutation of the
  array. \<open>permuteBy c\<close> picks, while elements remain, the element at index
  \<open>c k mod k\<close> among the \<open>k\<close> remaining ones; every permutation arises from some \<open>c\<close>.
\<close>

function permuteBy :: "(nat \<Rightarrow> nat) \<Rightarrow> 'a list \<Rightarrow> 'a list" where
  "permuteBy c xs =
     (if xs = [] then []
      else (let i = c (length xs) mod length xs
            in xs ! i # permuteBy c (take i xs @ drop (Suc i) xs)))"
  by pat_completeness auto
termination
proof (relation "measure (\<lambda>(c, xs). length xs)", goal_cases)
  case 1
  show ?case by simp
next
  case (2 c xs i)
  then have "i < length xs" by simp
  then show ?case by simp
qed

declare permuteBy.simps [simp del]

text \<open>\<open>new Map(nodes.map((n, i) => [n.id, i]))\<close>: a later entry of the same id overwrites.\<close>

definition nodeIndexMapOf :: "NodeData list \<Rightarrow> (string \<times> nat) list" where
  "nodeIndexMapOf ns =
     fold (\<lambda>(k, i) m. AList.update k i m) (zip (map nodeId ns) [0..<length ns]) []"

subsection \<open>Step 3: the spanning tree\<close>

text \<open>
  The state of the loop: the edges accepted so far, the disjoint sets and the number of
  \<open>Math.random()\<close> values read. An id missing from \<open>nodeIndexMap\<close> stops the model with a
  \<open>TypeError\<close> like an index outside \<open>parent\<close> does.
\<close>

type_synonym span_state = "EdgeData list \<times> DisjointSet \<times> nat"

definition spanStep :: "runtime \<Rightarrow> NodeData list \<Rightarrow> (string \<times> nat) list \<Rightarrow> PotentialEdge
    \<Rightarrow> span_state \<Rightarrow> error + span_state" where
  "spanStep rt ns nodeIndexMap p st =
     (case st of (edges, ds, pos) \<Rightarrow>
      (case map_of nodeIndexMap (nodeId (u p)) of
         None \<Rightarrow> Inl TypeError
       | Some uIdx \<Rightarrow>
      (case map_of nodeIndexMap (nodeId (v p)) of
         None \<Rightarrow> Inl TypeError
       | Some vIdx \<Rightarrow>
      (case ds_find (stackLimit rt) (parent ds) uIdx of
         Inl e \<Rightarrow> Inl e
       | Inr (rootU, par1) \<Rightarrow>
      (case ds_find (stackLimit rt) par1 vIdx of
         Inl e \<Rightarrow> Inl e
       | Inr (rootV, par2) \<Rightarrow>
         if rootU \<noteq> rootV then
           (case isCrossing ns edges (u p) (v p) of
              Inl e \<Rightarrow> Inl e
            | Inr crossing \<Rightarrow>
               if \<not> crossing then
                 (case ds_union (stackLimit rt) (ds\<lparr>parent := par2\<rparr>) uIdx vIdx of
                    Inl e \<Rightarrow> Inl e
                  | Inr ds' \<Rightarrow>
                     Inr (edges @ [\<lparr>nodeA = nodeId (u p), nodeB = nodeId (v p),
                                     count = (if mathRandom rt pos > 7 / 10 then 2 else 1)\<rparr>],
                          ds', pos + 1))
               else Inr (edges, ds\<lparr>parent := par2\<rparr>, pos))
         else Inr (edges, ds\<lparr>parent := par2\<rparr>, pos))))))"

primrec spanLoop :: "runtime \<Rightarrow> NodeData list \<Rightarrow> (string \<times> nat) list \<Rightarrow> PotentialEdge list
    \<Rightarrow> span_state \<Rightarrow> error + span_state" where
  "spanLoop rt ns nodeIndexMap [] st = Inr st"
| "spanLoop rt ns nodeIndexMap (p # ps) st =
     (case spanStep rt ns nodeIndexMap p st of
        Inl e \<Rightarrow> Inl e
      | Inr st' \<Rightarrow> spanLoop rt ns nodeIndexMap ps st')"

subsection \<open>Step 4: extra edges\<close>

text \<open>The state: the edges, \<open>addedExtra\<close> and the number of random values read.\<close>

type_synonym extra_state = "EdgeData list \<times> int \<times> nat"

primrec extraLoop :: "runtime \<Rightarrow> NodeData list \<Rightarrow> int \<Rightarrow> PotentialEdge list
    \<Rightarrow> extra_state \<Rightarrow> error + extra_state" where
  "extraLoop rt ns extraEdgesTarget [] st = Inr st"
| "extraLoop rt ns extraEdgesTarget (p # ps) st =
     (case st of (edges, addedExtra, pos) \<Rightarrow>
        if addedExtra \<ge> extraEdgesTarget then Inr st
        else if list_ex (\<lambda>e. (nodeA e = nodeId (u p) \<and> nodeB e = nodeId (v p)) \<or>
                              (nodeA e = nodeId (v p) \<and> nodeB e = nodeId (u p))) edges
        then extraLoop rt ns extraEdgesTarget ps st
        else (case isCrossing ns edges (u p) (v p) of
                Inl e \<Rightarrow> Inl e
              | Inr crossing \<Rightarrow>
                 if \<not> crossing then
                   extraLoop rt ns extraEdgesTarget ps
                     (edges @ [\<lparr>nodeA = nodeId (u p), nodeB = nodeId (v p),
                                 count = (if mathRandom rt pos > 6 / 10 then 2 else 1)\<rparr>],
                      addedExtra + 1, pos + 1)
                 else extraLoop rt ns extraEdgesTarget ps st))"

subsection \<open>Step 5: the requirements\<close>

text \<open>\<open>n.requiredConnections += c\<close> on the node that \<open>find\<close> returns for the id \<open>i\<close>.\<close>

primrec addRequired :: "string \<Rightarrow> nat \<Rightarrow> NodeData list \<Rightarrow> NodeData list" where
  "addRequired i c [] = []"
| "addRequired i c (n # rest) =
     (if nodeId n = i then n\<lparr>requiredConnections := requiredConnections n + c\<rparr> # rest
      else n # addRequired i c rest)"

definition pruneStep :: "nat \<Rightarrow> EdgeData \<Rightarrow> NodeData list \<times> EdgeData list
    \<Rightarrow> error + NodeData list \<times> EdgeData list" where
  "pruneStep maxConn e st =
     (case st of (ns, validEdges) \<Rightarrow>
      (case findNode ns (nodeA e) of
         None \<Rightarrow> Inl TypeError
       | Some nA \<Rightarrow>
          if requiredConnections nA + count e \<le> maxConn then
            (case findNode ns (nodeB e) of
               None \<Rightarrow> Inl TypeError
             | Some nB \<Rightarrow>
                if requiredConnections nB + count e \<le> maxConn
                then Inr (addRequired (nodeB e) (count e) (addRequired (nodeA e) (count e) ns),
                          validEdges @ [e])
                else Inr (ns, validEdges))
          else Inr (ns, validEdges)))"

primrec pruneLoop :: "nat \<Rightarrow> EdgeData list \<Rightarrow> NodeData list \<times> EdgeData list
    \<Rightarrow> error + NodeData list \<times> EdgeData list" where
  "pruneLoop maxConn [] st = Inr st"
| "pruneLoop maxConn (e # es) st =
     (case pruneStep maxConn e st of
        Inl err \<Rightarrow> Inl err
      | Inr st' \<Rightarrow> pruneLoop maxConn es st')"

subsection \<open>\<open>tryGenerate\<close>, \<open>createFallbackPuzzle\<close> and \<open>generate\<close>\<close>

record Puzzle =
  nodes :: "NodeData list"
  solutionEdges :: "EdgeData list"

definition tryGenerate :: "runtime \<Rightarrow> int \<Rightarrow> int \<times> int \<Rightarrow> nat \<Rightarrow> error + Puzzle" where
  "tryGenerate rt grid nodeRange maxConn =
     (let numNodes = \<lfloor>mathRandom rt 0 * of_int (snd nodeRange - fst nodeRange + 1)\<rfloor>
                       + fst nodeRange;
          (placed, occupied, pos1) = placeNodes rt grid numNodes ([], [], 1)
      in if int (length placed) < fst nodeRange then Inl (Error ''Not enough nodes placed'')
         else
           (let potentialEdges = permuteBy (sortOrder rt) (potentialEdgesOf placed);
                nodeIndexMap = nodeIndexMapOf placed
            in case spanLoop rt placed nodeIndexMap potentialEdges
                      ([], newDisjointSet (length placed), pos1) of
                 Inl e \<Rightarrow> Inl e
               | Inr (treeEdges, ds, pos2) \<Rightarrow>
                  if setCount ds > 1 then Inl (Error ''Graph not connected'')
                  else
                    (let extraEdgesTarget = \<lfloor>of_nat (length treeEdges) * (3 / 10 :: real)\<rfloor>
                     in case extraLoop rt placed extraEdgesTarget potentialEdges
                               (treeEdges, 0, pos2) of
                          Inl e \<Rightarrow> Inl e
                        | Inr (allEdges, addedExtra, pos3) \<Rightarrow>
                           (case pruneLoop maxConn allEdges
                                   (map (\<lambda>n. n\<lparr>requiredConnections := 0\<rparr>) placed, []) of
                              Inl e \<Rightarrow> Inl e
                            | Inr (finalNodes, validEdges) \<Rightarrow>
                               if list_ex (\<lambda>n. requiredConnections n = 0) finalNodes
                               then Inl (Error ''Isolated node'')
                               else Inr \<lparr>nodes = finalNodes, solutionEdges = validEdges\<rparr>))))"

definition createFallbackPuzzle :: Puzzle where
  "createFallbackPuzzle =
     \<lparr>nodes =
        [\<lparr>nodeId = ''n_0'', x = 1, y = 1, requiredConnections = 2, currentConnections = 0\<rparr>,
         \<lparr>nodeId = ''n_1'', x = 3, y = 1, requiredConnections = 2, currentConnections = 0\<rparr>,
         \<lparr>nodeId = ''n_2'', x = 1, y = 3, requiredConnections = 2, currentConnections = 0\<rparr>,
         \<lparr>nodeId = ''n_3'', x = 3, y = 3, requiredConnections = 2, currentConnections = 0\<rparr>],
      solutionEdges =
        [\<lparr>nodeA = ''n_0'', nodeB = ''n_1'', count = 1\<rparr>,
         \<lparr>nodeA = ''n_1'', nodeB = ''n_3'', count = 1\<rparr>,
         \<lparr>nodeA = ''n_3'', nodeB = ''n_2'', count = 1\<rparr>,
         \<lparr>nodeA = ''n_2'', nodeB = ''n_0'', count = 1\<rparr>]\<rparr>"

text \<open>
  \<open>generate\<close>: the \<open>while (attempts < 100)\<close> loop. \<open>try\<close>/\<open>catch\<close> turns every error of an
  attempt, whatever it is, into the next attempt. \<open>rts k\<close> is what the runtime does during
  the attempt made when \<open>attempts = k\<close>.
\<close>

function generateLoop :: "DifficultyConfig \<Rightarrow> (nat \<Rightarrow> runtime) \<Rightarrow> nat \<Rightarrow> Puzzle" where
  "generateLoop settings rts attempts =
     (if attempts < 100 then
        (case tryGenerate (rts attempts) (gridSize settings) (nodeCount settings)
                (maxConnections settings) of
           Inr puzzle \<Rightarrow> puzzle
         | Inl e \<Rightarrow> generateLoop settings rts (attempts + 1))
      else createFallbackPuzzle)"
  by pat_completeness auto
termination
  by (relation "measure (\<lambda>(settings, rts, attempts). 100 - attempts)") auto

declare generateLoop.simps [simp del]

definition generate :: "Difficulty \<Rightarrow> (nat \<Rightarrow> runtime) \<Rightarrow> Puzzle" where
  "generate difficulty rts = generateLoop (DIFFICULTY_SETTINGS difficulty) rts 0"

section \<open>Auxiliary definitions for the proofs\<close>

subsection \<open>Sequences of calls on the placed-edge map\<close>

datatype action = Toggle House House | SetConn House House nat | Reset

fun applyAction :: "action \<Rightarrow> edge_map \<Rightarrow> edge_map" where
  "applyAction (Toggle a b) edges = snd (toggleConnection a b edges)"
| "applyAction (SetConn a b cnt) edges = setConnection a b cnt edges"
| "applyAction Reset edges = reset edges"

text \<open>\<open>setConnection\<close> is meant for a count of 0, 1 or 2.\<close>

fun validAction :: "action \<Rightarrow> bool" where
  "validAction (SetConn a b cnt) = (cnt = 0 \<or> cnt = 1 \<or> cnt = 2)"
| "validAction _ = True"

text \<open>A call made on houses of the list \<open>allNodes\<close>.\<close>

fun actionOn :: "House list \<Rightarrow> action \<Rightarrow> bool" where
  "actionOn allNodes (Toggle a b) = (a \<in> set allNodes \<and> b \<in> set allNodes)"
| "actionOn allNodes (SetConn a b cnt) = (a \<in> set allNodes \<and> b \<in> set allNodes)"
| "actionOn allNodes Reset = True"

definition edgesInv :: "edge_map \<Rightarrow> bool" where
  "edgesInv edges \<longleftrightarrow>
     distinct (map fst edges) \<and>
     list_all (\<lambda>(k, e). (count e = 1 \<or> count e = 2) \<and> k = getEdgeKey (nodeA e) (nodeB e)) edges"

subsection \<open>The tests of \<open>canConnect\<close>, one node and one edge at a time\<close>

definition betweenTest :: "NodeData \<Rightarrow> NodeData \<Rightarrow> NodeData \<Rightarrow> bool" where
  "betweenTest dA dB dO =
     (if x dA = x dB
      then x dO = x dA \<and> ((y dO > y dA \<and> y dO < y dB) \<or> (y dO > y dB \<and> y dO < y dA))
      else y dO = y dA \<and> ((x dO > x dA \<and> x dO < x dB) \<or> (x dO > x dB \<and> x dO < x dA)))"

definition crossTest :: "NodeData \<Rightarrow> NodeData \<Rightarrow> NodeData \<Rightarrow> NodeData \<Rightarrow> bool" where
  "crossTest dA dB d1 d2 =
     (if x dA = x dB \<and> x d1 \<noteq> x d2 then
        x dA > min (x d1) (x d2) \<and> x dA < max (x d1) (x d2) \<and>
        y d1 > min (y dA) (y dB) \<and> y d1 < max (y dA) (y dB)
      else if x dA \<noteq> x dB \<and> x d1 = x d2 then
        y dA > min (y d1) (y d2) \<and> y dA < max (y d1) (y d2) \<and>
        x d1 > min (x dA) (x dB) \<and> x d1 < max (x dA) (x dB)
      else False)"

subsection \<open>What \<open>checkWinCondition\<close> computes, in closed form\<close>

definition houseId :: "House \<Rightarrow> string" where
  "houseId h = nodeId (dataModel h)"

text \<open>What one edge adds to the count of the house with id \<open>i\<close>, and the sum over all edges.\<close>

definition contribution :: "EdgeData \<Rightarrow> string \<Rightarrow> nat" where
  "contribution e i = (if nodeA e = i then count e else 0) + (if nodeB e = i then count e else 0)"

definition degreeOf :: "EdgeData list \<Rightarrow> string \<Rightarrow> nat" where
  "degreeOf es i = sum_list (map (\<lambda>e. contribution e i) es)"

text \<open>
  Adding \<open>d i\<close> to the first house of each id \<open>i\<close>: what the \<open>find\<close>-and-update loop
  over the edges amounts to.
\<close>

primrec addAll :: "(string \<Rightarrow> nat) \<Rightarrow> House list \<Rightarrow> House list" where
  "addAll d [] = []"
| "addAll d (h # hs) =
     updateConnectionCount (currentConnections (dataModel h) + d (nodeId (dataModel h))) h
       # addAll (d(nodeId (dataModel h) := 0)) hs"

definition countsCorrect :: "(string \<Rightarrow> nat) \<Rightarrow> House list \<Rightarrow> bool" where
  "countsCorrect d houses =
     list_all (\<lambda>h. currentConnections (dataModel h) = requiredConnections (dataModel h))
       (addAll d (map (updateConnectionCount 0) houses))"

text \<open>
  Two ids are adjacent when some edge joins them, whatever its count; \<open>reachable es s\<close>
  are the ids connected to \<open>s\<close> by a path of edges.
\<close>

definition adjacent :: "EdgeData list \<Rightarrow> (string \<times> string) set" where
  "adjacent es = {(i, j). \<exists>e\<in>set es. (nodeA e = i \<and> nodeB e = j) \<or> (nodeB e = i \<and> nodeA e = j)}"

definition reachable :: "EdgeData list \<Rightarrow> string \<Rightarrow> string set" where
  "reachable es s = (adjacent es)\<^sup>* `` {s}"

definition ensureKey :: "string \<Rightarrow> adjacency \<Rightarrow> adjacency" where
  "ensureKey k adj = (if map_of adj k = None then AList.update k [] adj else adj)"

text \<open>
  An id without a hyphen. The ids the generator makes (\<open>n_0\<close>, \<open>n_1\<close>, ...) are of this
  kind, and for such ids the key \<open>idA-idB\<close> determines the unordered pair.
\<close>

definition plainId :: "string \<Rightarrow> bool" where
  "plainId i \<longleftrightarrow> CHR ''-'' \<notin> set i"

subsection \<open>Predicates on the states of the generator\<close>

text \<open>
  The crossing test of \<open>isCrossing\<close> for one accepted edge, and the edges both of whose
  endpoints \<open>find\<close> finds among the nodes.
\<close>

definition edgeLinesCross :: "NodeData list \<Rightarrow> NodeData \<Rightarrow> NodeData \<Rightarrow> EdgeData \<Rightarrow> bool" where
  "edgeLinesCross ns n1 n2 e =
     (case (findNode ns (nodeA e), findNode ns (nodeB e)) of
        (Some eU, Some eV) \<Rightarrow> linesCross n1 n2 eU eV
      | _ \<Rightarrow> False)"

definition edgeResolved :: "NodeData list \<Rightarrow> EdgeData \<Rightarrow> bool" where
  "edgeResolved ns e \<longleftrightarrow> findNode ns (nodeA e) \<noteq> None \<and> findNode ns (nodeB e) \<noteq> None"

text \<open>Reading a decimal numeral back, and the id of the node of index \<open>i\<close>.\<close>

definition digitVal :: "char \<Rightarrow> nat" where
  "digitVal c = of_char c - 48"

definition numberOf :: "string \<Rightarrow> nat" where
  "numberOf s = foldl (\<lambda>a c. 10 * a + digitVal c) 0 s"

definition idOf :: "nat \<Rightarrow> string" where
  "idOf i = ''n_'' @ digits i"

text \<open>The nodes placed before index \<open>k\<close>: distinct ids, each the id of an index below \<open>k\<close>.\<close>

definition idsBelow :: "nat \<Rightarrow> NodeData list \<Rightarrow> bool" where
  "idsBelow k ns \<longleftrightarrow> distinct (map nodeId ns) \<and> (\<forall>n\<in>set ns. \<exists>i<k. nodeId n = idOf i)"

text \<open>A candidate joins two nodes at different indices; an edge made from a candidate.\<close>

definition candidateOf :: "NodeData list \<Rightarrow> PotentialEdge \<Rightarrow> bool" where
  "candidateOf ns p \<longleftrightarrow> (\<exists>i j. i < j \<and> j < length ns \<and> u p = ns ! i \<and> v p = ns ! j)"

definition fromCandidates :: "PotentialEdge list \<Rightarrow> EdgeData \<Rightarrow> bool" where
  "fromCandidates cands e \<longleftrightarrow> (\<exists>p\<in>set cands. nodeA e = nodeId (u p) \<and> nodeB e = nodeId (v p))"

definition boundedBy :: "nat \<Rightarrow> NodeData list \<Rightarrow> bool" where
  "boundedBy m ns \<longleftrightarrow> (\<forall>n\<in>set ns. requiredConnections n \<le> m)"

text \<open>
  The forest of a \<open>DisjointSet\<close>: every entry of \<open>parent\<close> is an index, and a rank that is
  at most \<open>bound\<close> grows strictly from each index to its parent. \<open>foundRoot\<close> is what a
  \<open>find\<close> that returns gives back: a root, and the compressed forest.
\<close>

definition ranked :: "(nat \<Rightarrow> nat) \<Rightarrow> nat \<Rightarrow> nat list \<Rightarrow> bool" where
  "ranked rk bound par \<longleftrightarrow>
     (\<forall>i<length par. par ! i < length par \<and> rk i \<le> bound \<and> (par ! i \<noteq> i \<longrightarrow> rk i < rk (par ! i)))"

definition foundRoot :: "(nat \<Rightarrow> nat) \<Rightarrow> nat \<Rightarrow> nat list \<Rightarrow> nat \<Rightarrow> nat \<times> nat list \<Rightarrow> bool" where
  "foundRoot rk bound par i res \<longleftrightarrow>
     (case res of (r, par') \<Rightarrow>
        r < length par \<and> length par' = length par \<and> par' ! r = r \<and> rk i \<le> rk r \<and>
        ranked rk bound par' \<and> (\<forall>j<length par. par ! j = j \<longrightarrow> par' ! j = j))"

text \<open>
  The invariant of the spanning-tree loop: the sets form a forest over the indices of the
  nodes, and the endpoints of the accepted edges are nodes.
\<close>

definition spanInv :: "NodeData list \<Rightarrow> nat \<Rightarrow> span_state \<Rightarrow> bool" where
  "spanInv ns bound st \<longleftrightarrow>
     (case st of (es, ds, pos) \<Rightarrow>
        (\<exists>rk. ranked rk bound (parent ds)) \<and> length (parent ds) = length ns \<and>
        list_all (edgeResolved ns) es)"

section \<open>The geometry of the specification\<close>

text \<open>
  The predicates below are written from the specification's wording, to be compared with
  what the code computes. Two points are aligned when they share a coordinate.
\<close>

definition aligned_spec :: "NodeData \<Rightarrow> NodeData \<Rightarrow> bool" where
  "aligned_spec p q \<longleftrightarrow> x p = x q \<or> y p = y q"

definition strictlyInside :: "int \<Rightarrow> int \<Rightarrow> int \<Rightarrow> bool" where
  "strictlyInside lo hi c \<longleftrightarrow> min lo hi < c \<and> c < max lo hi"

text \<open>
  \<open>c\<close> lies on the grid line of \<open>p\<close> and \<open>q\<close> (the same \<open>x\<close> if they share \<open>x\<close>, the
  same \<open>y\<close> otherwise), strictly between them on the varying axis.
\<close>

definition isBetween_spec :: "NodeData \<Rightarrow> NodeData \<Rightarrow> NodeData \<Rightarrow> bool" where
  "isBetween_spec p q c =
     (if x p = x q then x c = x p \<and> strictlyInside (y p) (y q) (y c)
      else y c = y p \<and> y c = y q \<and> strictlyInside (x p) (x q) (x c))"

text \<open>
  One segment is vertical, the other horizontal, and the coordinate of each lies strictly
  inside the open interval the other spans.
\<close>

definition segmentsCross_spec :: "NodeData \<Rightarrow> NodeData \<Rightarrow> NodeData \<Rightarrow> NodeData \<Rightarrow> bool" where
  "segmentsCross_spec a1 a2 b1 b2 \<longleftrightarrow>
     (x a1 = x a2 \<and> y b1 = y b2 \<and>
        strictlyInside (x b1) (x b2) (x a1) \<and> strictlyInside (y a1) (y a2) (y b1))
   \<or> (y a1 = y a2 \<and> x b1 = x b2 \<and>
        strictlyInside (y b1) (y b2) (y a1) \<and> strictlyInside (x a1) (x a2) (x b1))"

text \<open>The segment from \<open>a\<close> to \<open>b\<close> crosses the placed edge \<open>e\<close>, drawn between its two houses.\<close>

definition edgeCrosses_spec :: "House \<Rightarrow> House \<Rightarrow> House list \<Rightarrow> EdgeData \<Rightarrow> bool" where
  "edgeCrosses_spec a b allNodes e =
     (case (findHouse allNodes (nodeA e), findHouse allNodes (nodeB e)) of
        (Some h1, Some h2) \<Rightarrow>
           segmentsCross_spec (dataModel a) (dataModel b) (dataModel h1) (dataModel h2)
      | _ \<Rightarrow> False)"

text \<open>
  The crossing test of the spanning-tree step, in the words of the specification: the
  segment of the candidate against the segment of an accepted edge, whose endpoints are
  looked up by id among the placed nodes.
\<close>

definition acceptedCrosses_spec :: "NodeData list \<Rightarrow> NodeData \<Rightarrow> NodeData \<Rightarrow> EdgeData \<Rightarrow> bool" where
  "acceptedCrosses_spec ns n1 n2 e =
     (case (findNode ns (nodeA e), findNode ns (nodeB e)) of
        (Some eU, Some eV) \<Rightarrow> segmentsCross_spec n1 n2 eU eV
      | _ \<Rightarrow> False)"

text \<open>
  Well-formed placed edges: both endpoints are houses of the scene (\<open>edgeKnown\<close>), and
  the two houses are aligned (\<open>edgeKnownAligned\<close>), as every edge placed through
  \<open>canConnect\<close> is.
\<close>

definition edgeKnown :: "House list \<Rightarrow> EdgeData \<Rightarrow> bool" where
  "edgeKnown allNodes e \<longleftrightarrow>
     findHouse allNodes (nodeA e) \<noteq> None \<and> findHouse allNodes (nodeB e) \<noteq> None"

definition edgeKnownAligned :: "House list \<Rightarrow> EdgeData \<Rightarrow> bool" where
  "edgeKnownAligned allNodes e =
     (case (findHouse allNodes (nodeA e), findHouse allNodes (nodeB e)) of
        (Some h1, Some h2) \<Rightarrow> aligned_spec (dataModel h1) (dataModel h2)
      | _ \<Rightarrow> False)"

section \<open>The win condition of the specification\<close>

text \<open>The degree of a node: the sum of the multiplicities of its incident edges.\<close>

definition degree_spec :: "EdgeData list \<Rightarrow> string \<Rightarrow> nat" where
  "degree_spec es i = sum_list (map count (filter (\<lambda>e. nodeA e = i \<or> nodeB e = i) es))"

text \<open>The ids the search of \<open>checkWinCondition\<close> visits, starting from the first house.\<close>

definition bfsVisited :: "House list \<Rightarrow> EdgeData list \<Rightarrow> string list" where
  "bfsVisited houses es =
     bfsLoop (fold addAdjacency es []) [houseId (hd houses)] [houseId (hd houses)]"

text \<open>An edge of the data model: its endpoints are two different houses of the scene.\<close>

definition edgeWellFormed :: "House list \<Rightarrow> EdgeData \<Rightarrow> bool" where
  "edgeWellFormed houses e \<longleftrightarrow>
     nodeA e \<in> set (map houseId houses) \<and> nodeB e \<in> set (map houseId houses) \<and>
     nodeA e \<noteq> nodeB e"

section \<open>Concrete scenes\<close>

definition mkHouse :: "nat \<Rightarrow> string \<Rightarrow> int \<Rightarrow> int \<Rightarrow> nat \<Rightarrow> House" where
  "mkHouse r i px py req =
     \<lparr>objRef = r,
      dataModel = \<lparr>nodeId = i, x = px, y = py, requiredConnections = req, currentConnections = 0\<rparr>\<rparr>"

text \<open>A horizontal pair on the line \<open>y = 1\<close> and a vertical pair on the line \<open>x = 1\<close>.\<close>

definition crossScene :: "House list" where
  "crossScene = [mkHouse 0 ''n_0'' 0 1 1, mkHouse 1 ''n_1'' 2 1 1,
                 mkHouse 2 ''n_2'' 1 0 1, mkHouse 3 ''n_3'' 1 2 1]"

text \<open>
  The fallback puzzle as a scene: four houses on the corners of a square, each requiring
  two connections, the four sides of the square as edges, and the map that holds them.
\<close>

definition squareScene :: "House list" where
  "squareScene = [mkHouse 0 ''n_0'' 1 1 2, mkHouse 1 ''n_1'' 3 1 2,
                  mkHouse 2 ''n_2'' 1 3 2, mkHouse 3 ''n_3'' 3 3 2]"

definition squareLoop :: "EdgeData list" where
  "squareLoop = [\<lparr>nodeA = ''n_0'', nodeB = ''n_1'', count = 1\<rparr>,
                 \<lparr>nodeA = ''n_1'', nodeB = ''n_3'', count = 1\<rparr>,
                 \<lparr>nodeA = ''n_3'', nodeB = ''n_2'', count = 1\<rparr>,
                 \<lparr>nodeA = ''n_2'', nodeB = ''n_0'', count = 1\<rparr>]"

definition squareMap :: edge_map where
  "squareMap = map (\<lambda>e. (getEdgeKey (nodeA e) (nodeB e), e)) squareLoop"

text \<open>
  Two runtimes. With \<open>zeroRuntime\<close> every random value is 0: every node falls on the cell
  \<open>(0, 0)\<close> and the attempt fails. With \<open>rowRuntime\<close> an attempt places five nodes in a row
  and one below the first, and succeeds.
\<close>

definition zeroRuntime :: runtime where
  "zeroRuntime = \<lparr>mathRandom = (\<lambda>k. 0), sortOrder = (\<lambda>k. 0), stackLimit = 64\<rparr>"

definition rowRuntime :: runtime where
  "rowRuntime =
     \<lparr>mathRandom = (\<lambda>k. if k < 14
                          then [0, 0, 0, 1/5, 0, 2/5, 0, 3/5, 0, 4/5, 0, 0, 1/5, 9/10] ! k
                          else 0),
      sortOrder = (\<lambda>k. 0), stackLimit = 64\<rparr>"

definition rowPuzzle :: Puzzle where
  "rowPuzzle =
     \<lparr>nodes =
        [\<lparr>nodeId = ''n_0'', x = 0, y = 0, requiredConnections = 3, currentConnections = 0\<rparr>,
         \<lparr>nodeId = ''n_1'', x = 1, y = 0, requiredConnections = 3, currentConnections = 0\<rparr>,
         \<lparr>nodeId = ''n_2'', x = 2, y = 0, requiredConnections = 2, currentConnections = 0\<rparr>,
         \<lparr>nodeId = ''n_3'', x = 3, y = 0, requiredConnections = 2, currentConnections = 0\<rparr>,
         \<lparr>nodeId = ''n_4'', x = 4, y = 0, requiredConnections = 1, currentConnections = 0\<rparr>,
         \<lparr>nodeId = ''n_5'', x = 0, y = 1, requiredConnections = 1, currentConnections = 0\<rparr>],
      solutionEdges =
        [\<lparr>nodeA = ''n_0'', nodeB = ''n_1'', count = 2\<rparr>,
         \<lparr>nodeA = ''n_0'', nodeB = ''n_5'', count = 1\<rparr>,
         \<lparr>nodeA = ''n_1'', nodeB = ''n_2'', count = 1\<rparr>,
         \<lparr>nodeA = ''n_2'', nodeB = ''n_3'', count = 1\<rparr>,
         \<lparr>nodeA = ''n_3'', nodeB = ''n_4'', count = 1\<rparr>]\<rparr>"

text \<open>
  Five placed nodes: the horizontal pair \<open>n_0\<close>, \<open>n_1\<close> on the line \<open>y = 1\<close>, the vertical pair
  \<open>n_2\<close>, \<open>n_3\<close> on the line \<open>x = 1\<close> that crosses it, and \<open>n_4\<close> above \<open>n_0\<close>. \<open>spanAccepted\<close> and
  \<open>spanSets\<close> are the accepted edges and the disjoint sets once the spanning-tree step has
  accepted the candidate \<open>n_0\<close>, \<open>n_1\<close>.
\<close>

definition spanNodes :: "NodeData list" where
  "spanNodes =
     [\<lparr>nodeId = ''n_0'', x = 0, y = 1, requiredConnections = 0, currentConnections = 0\<rparr>,
      \<lparr>nodeId = ''n_1'', x = 2, y = 1, requiredConnections = 0, currentConnections = 0\<rparr>,
      \<lparr>nodeId = ''n_2'', x = 1, y = 0, requiredConnections = 0, currentConnections = 0\<rparr>,
      \<lparr>nodeId = ''n_3'', x = 1, y = 2, requiredConnections = 0, currentConnections = 0\<rparr>,
      \<lparr>nodeId = ''n_4'', x = 0, y = 3, requiredConnections = 0, currentConnections = 0\<rparr>]"

definition spanAccepted :: "EdgeData list" where
  "spanAccepted = [\<lparr>nodeA = ''n_0'', nodeB = ''n_1'', count = 1\<rparr>]"

definition spanSets :: DisjointSet where
  "spanSets = \<lparr>parent = [1, 1, 2, 3, 4], setCount = 4\<rparr>"

section \<open>Properties of the placed-edge map\<close>

lemma getEdgeKey_commute: "getEdgeKey a b = getEdgeKey b a"
  by (auto simp: getEdgeKey_def)

lemma map_of_update: "map_of (AList.update k val al) k' = (if k' = k then Some val else map_of al k')"
  by (simp add: update_conv')

lemma map_of_delete: "map_of (AList.delete k al) k' = (if k' = k then None else map_of al k')"
  by (simp add: delete_conv')

lemma delete_update_absent: "map_of al k = None \<Longrightarrow> AList.delete k (AList.update k val al) = al"
  by (induction al) (auto split: if_splits)

lemma update_update_same: "AList.update k val (AList.update k w al) = AList.update k val al"
  by (induction al) auto

text \<open>
  Claim C7. \<open>toggleConnection\<close> takes the multiplicity of the pair from absent to 1, from 1
  to 2 and from 2 to absent, whatever else the map holds, and returns the new multiplicity
  (0 when the pair is now absent). The order of the two houses does not matter, and three
  toggles from absent give back the map they started from.
\<close>

theorem toggleConnection_cycle:
  fixes a b :: House and edges :: edge_map
  defines "ia \<equiv> nodeId (dataModel a)" and "ib \<equiv> nodeId (dataModel b)"
  shows "(map_of edges (getEdgeKey ia ib) = None \<longrightarrow>
            fst (toggleConnection a b edges) = 1 \<and>
            hasConnection (snd (toggleConnection a b edges)) ia ib = 1)
       \<and> (hasConnection edges ia ib = 1 \<longrightarrow>
            fst (toggleConnection a b edges) = 2 \<and>
            hasConnection (snd (toggleConnection a b edges)) ia ib = 2)
       \<and> (hasConnection edges ia ib = 2 \<longrightarrow>
            fst (toggleConnection a b edges) = 0 \<and>
            map_of (snd (toggleConnection a b edges)) (getEdgeKey ia ib) = None)
       \<and> fst (toggleConnection b a edges) = fst (toggleConnection a b edges)
       \<and> (map_of edges (getEdgeKey ia ib) = None \<longrightarrow>
            snd (toggleConnection a b (snd (toggleConnection a b (snd (toggleConnection a b edges)))))
              = edges)"
  unfolding ia_def ib_def
  by (auto simp: toggleConnection_def hasConnection_def Let_def map_of_update map_of_delete
        getEdgeKey_commute[of "nodeId (dataModel b)" "nodeId (dataModel a)"]
        delete_update_absent update_update_same
      split: option.splits)

theorem toggleConnection_cycle_witness:
  "map_of [] (getEdgeKey ''n_0'' ''n_1'') = (None :: EdgeData option)
   \<and> fst (toggleConnection (mkHouse 0 ''n_0'' 0 1 1) (mkHouse 1 ''n_1'' 2 1 1) []) = 1
   \<and> hasConnection [(''n_0-n_1'', \<lparr>nodeA = ''n_0'', nodeB = ''n_1'', count = 1\<rparr>)] ''n_0'' ''n_1'' = 1
   \<and> fst (toggleConnection (mkHouse 0 ''n_0'' 0 1 1) (mkHouse 1 ''n_1'' 2 1 1)
             [(''n_0-n_1'', \<lparr>nodeA = ''n_0'', nodeB = ''n_1'', count = 1\<rparr>)]) = 2
   \<and> hasConnection [(''n_0-n_1'', \<lparr>nodeA = ''n_0'', nodeB = ''n_1'', count = 2\<rparr>)] ''n_0'' ''n_1'' = 2
   \<and> fst (toggleConnection (mkHouse 0 ''n_0'' 0 1 1) (mkHouse 1 ''n_1'' 2 1 1)
             [(''n_0-n_1'', \<lparr>nodeA = ''n_0'', nodeB = ''n_1'', count = 2\<rparr>)]) = 0
   \<and> snd (toggleConnection (mkHouse 0 ''n_0'' 0 1 1) (mkHouse 1 ''n_1'' 2 1 1)
        (snd (toggleConnection (mkHouse 0 ''n_0'' 0 1 1) (mkHouse 1 ''n_1'' 2 1 1)
          (snd (toggleConnection (mkHouse 0 ''n_0'' 0 1 1) (mkHouse 1 ''n_1'' 2 1 1) []))))) = []"
  using toggleConnection_cycle[of "[]" "mkHouse 0 ''n_0'' 0 1 1" "mkHouse 1 ''n_1'' 2 1 1"]
        toggleConnection_cycle[of "[(''n_0-n_1'', \<lparr>nodeA = ''n_0'', nodeB = ''n_1'', count = 1\<rparr>)]"
           "mkHouse 0 ''n_0'' 0 1 1" "mkHouse 1 ''n_1'' 2 1 1"]
        toggleConnection_cycle[of "[(''n_0-n_1'', \<lparr>nodeA = ''n_0'', nodeB = ''n_1'', count = 2\<rparr>)]"
           "mkHouse 0 ''n_0'' 0 1 1" "mkHouse 1 ''n_1'' 2 1 1"]
  by (simp add: mkHouse_def hasConnection_def getEdgeKey_def)

subsection \<open>The invariant of the map\<close>

lemma set_update_subset: "set (AList.update k val al) \<subseteq> insert (k, val) (set al)"
  by (induction al) auto

lemma set_delete_subset: "set (AList.delete k al) \<subseteq> set al"
  by (auto simp: AList.delete_eq)

lemma edgesInv_update:
  assumes "edgesInv edges" "count e = 1 \<or> count e = 2" "k = getEdgeKey (nodeA e) (nodeB e)"
  shows "edgesInv (AList.update k e edges)"
  using assms set_update_subset[of k e edges]
  unfolding edgesInv_def list_all_iff by (auto simp: distinct_update)

lemma edgesInv_delete: "edgesInv edges \<Longrightarrow> edgesInv (AList.delete k edges)"
  using set_delete_subset[of k edges]
  unfolding edgesInv_def list_all_iff by (auto simp: distinct_delete)

lemma edgesInv_applyAction:
  assumes "edgesInv edges" "validAction act"
  shows "edgesInv (applyAction act edges)"
proof (cases act)
  case (Toggle a b)
  then show ?thesis using assms(1)
    by (auto simp: toggleConnection_def Let_def intro!: edgesInv_update edgesInv_delete
             split: option.splits)
next
  case (SetConn a b cnt)
  then show ?thesis using assms
    by (auto simp: setConnection_def Let_def intro!: edgesInv_update edgesInv_delete)
next
  case Reset
  then show ?thesis by (simp add: reset_def edgesInv_def)
qed

lemma edgesInv_fold:
  "edgesInv edges \<Longrightarrow> list_all validAction acts \<Longrightarrow> edgesInv (fold applyAction acts edges)"
  by (induction acts arbitrary: edges) (auto simp: edgesInv_applyAction)

lemma distinct_filter_key_le1:
  "distinct (map fst al) \<Longrightarrow> length (filter (\<lambda>p. fst p = k) al) \<le> 1"
proof (induction al)
  case Nil then show ?case by simp
next
  case (Cons p al)
  show ?case
  proof (cases "fst p = k")
    case True
    with Cons.prems have "k \<notin> fst ` set al" by simp
    then have "\<forall>q\<in>set al. fst q \<noteq> k" by (metis imageI)
    then have "filter (\<lambda>p. fst p = k) al = []" by (auto simp: filter_empty_conv)
    with True show ?thesis by simp
  next
    case False
    with Cons show ?thesis by simp
  qed
qed

lemma pair_filter_le_key_filter:
  assumes "list_all (\<lambda>(k, e). P e \<and> k = getEdgeKey (nodeA e) (nodeB e)) al"
  shows "length (filter (\<lambda>p. {nodeA (snd p), nodeB (snd p)} = {a, b}) al)
         \<le> length (filter (\<lambda>p. fst p = getEdgeKey a b) al)"
  using assms
proof (induction al)
  case Nil then show ?case by simp
next
  case (Cons p al)
  have "{nodeA (snd p), nodeB (snd p)} = {a, b} \<Longrightarrow> fst p = getEdgeKey a b"
    using Cons.prems getEdgeKey_commute[of a b]
    by (cases p) (auto simp: doubleton_eq_iff)
  with Cons show ?case by auto
qed

text \<open>
  Claim C9. After any sequence of \<open>toggleConnection\<close>, \<open>setConnection\<close> (with a count of
  0, 1 or 2) and \<open>reset\<close> calls on the empty map, the keys of the map are distinct, every
  entry is stored under the key of its own two ids with a count of 1 or 2 (never 0), an
  unordered pair of ids has at most one entry, and the key does not depend on the order of
  the two ids.
\<close>

theorem edges_invariant:
  assumes "list_all validAction acts"
  shows "distinct (map fst (fold applyAction acts []))
       \<and> list_all (\<lambda>(k, e). (count e = 1 \<or> count e = 2) \<and> k = getEdgeKey (nodeA e) (nodeB e))
            (fold applyAction acts [])
       \<and> length (filter (\<lambda>p. {nodeA (snd p), nodeB (snd p)} = {a, b}) (fold applyAction acts [])) \<le> 1
       \<and> getEdgeKey a b = getEdgeKey b a"
proof -
  have inv: "edgesInv (fold applyAction acts [])"
    using assms by (intro edgesInv_fold) (simp_all add: edgesInv_def)
  then have d: "distinct (map fst (fold applyAction acts []))"
    and l: "list_all (\<lambda>(k, e). (count e = 1 \<or> count e = 2) \<and> k = getEdgeKey (nodeA e) (nodeB e))
            (fold applyAction acts [])"
    by (simp_all add: edgesInv_def)
  have "length (filter (\<lambda>p. {nodeA (snd p), nodeB (snd p)} = {a, b}) (fold applyAction acts [])) \<le> 1"
    using pair_filter_le_key_filter[OF l, of a b] distinct_filter_key_le1[OF d, of "getEdgeKey a b"]
    by linarith
  with d l getEdgeKey_commute show ?thesis by blast
qed

theorem edges_invariant_witness:
  "list_all validAction
     [Toggle (mkHouse 0 ''n_0'' 0 1 1) (mkHouse 1 ''n_1'' 2 1 1),
      SetConn (mkHouse 2 ''n_2'' 1 0 1) (mkHouse 3 ''n_3'' 1 2 1) 2,
      Toggle (mkHouse 1 ''n_1'' 2 1 1) (mkHouse 0 ''n_0'' 0 1 1)]
   \<and> map fst (fold applyAction
        [Toggle (mkHouse 0 ''n_0'' 0 1 1) (mkHouse 1 ''n_1'' 2 1 1),
         SetConn (mkHouse 2 ''n_2'' 1 0 1) (mkHouse 3 ''n_3'' 1 2 1) 2,
         Toggle (mkHouse 1 ''n_1'' 2 1 1) (mkHouse 0 ''n_0'' 0 1 1)] [])
      = [''n_0-n_1'', ''n_2-n_3'']
   \<and> distinct (map fst (fold applyAction
        [Toggle (mkHouse 0 ''n_0'' 0 1 1) (mkHouse 1 ''n_1'' 2 1 1),
         SetConn (mkHouse 2 ''n_2'' 1 0 1) (mkHouse 3 ''n_3'' 1 2 1) 2,
         Toggle (mkHouse 1 ''n_1'' 2 1 1) (mkHouse 0 ''n_0'' 0 1 1)] []))"
  using edges_invariant[of
     "[Toggle (mkHouse 0 ''n_0'' 0 1 1) (mkHouse 1 ''n_1'' 2 1 1),
       SetConn (mkHouse 2 ''n_2'' 1 0 1) (mkHouse 3 ''n_3'' 1 2 1) 2,
       Toggle (mkHouse 1 ''n_1'' 2 1 1) (mkHouse 0 ''n_0'' 0 1 1)]" "''n_0''" "''n_1''"]
  by (simp add: mkHouse_def toggleConnection_def setConnection_def getEdgeKey_def)

section \<open>Properties of \<open>canConnect\<close>\<close>

lemma nodeBetweenLoop_Cons:
  "nodeBetweenLoop a b (other # rest) =
     (if objRef other = objRef a \<or> objRef other = objRef b then nodeBetweenLoop a b rest
      else if betweenTest (dataModel a) (dataModel b) (dataModel other) then True
      else nodeBetweenLoop a b rest)"
  by (cases "x (dataModel a) = x (dataModel b)";
      cases "objRef other = objRef a \<or> objRef other = objRef b")
     (simp_all add: Let_def betweenTest_def)

lemma nodeBetweenLoop_iff:
  "nodeBetweenLoop a b ns \<longleftrightarrow>
     (\<exists>other\<in>set ns. objRef other \<noteq> objRef a \<and> objRef other \<noteq> objRef b \<and>
        betweenTest (dataModel a) (dataModel b) (dataModel other))"
proof (induction ns)
  case Nil
  show ?case by simp
next
  case (Cons other rest)
  show ?case unfolding nodeBetweenLoop_Cons Cons.IH by auto
qed

lemma betweenTest_commute:
  "x dA = x dB \<or> y dA = y dB \<Longrightarrow> betweenTest dA dB dO = betweenTest dB dA dO"
  unfolding betweenTest_def by auto

lemma betweenTest_self: "\<not> betweenTest dA dA dO"
  unfolding betweenTest_def by auto

lemma betweenTest_spec:
  "x dA = x dB \<or> y dA = y dB \<Longrightarrow> betweenTest dA dB dO = isBetween_spec dA dB dO"
  unfolding betweenTest_def isBetween_spec_def strictlyInside_def by (auto simp: min_def max_def)

lemma nodeBetweenLoop_commute:
  assumes "x (dataModel a) = x (dataModel b) \<or> y (dataModel a) = y (dataModel b)"
  shows "nodeBetweenLoop a b ns = nodeBetweenLoop b a ns"
  unfolding nodeBetweenLoop_iff betweenTest_commute[OF assms] by blast

lemma nodeBetweenLoop_self: "\<not> nodeBetweenLoop a a ns"
  unfolding nodeBetweenLoop_iff by (simp add: betweenTest_self)

lemma crossingLoop_Cons:
  "crossingLoop a b ns (e # es) =
     (if nodeA e = nodeId (dataModel a) \<or> nodeA e = nodeId (dataModel b) \<or>
         nodeB e = nodeId (dataModel a) \<or> nodeB e = nodeId (dataModel b)
      then crossingLoop a b ns es
      else case findHouse ns (nodeA e) of
             None \<Rightarrow> Inl TypeError
           | Some h1 \<Rightarrow>
              (case findHouse ns (nodeB e) of
                 None \<Rightarrow> Inl TypeError
               | Some h2 \<Rightarrow>
                  if crossTest (dataModel a) (dataModel b) (dataModel h1) (dataModel h2)
                  then Inr True else crossingLoop a b ns es))"
  by (simp add: Let_def crossTest_def split: option.splits)

lemma crossTest_commute:
  "x dA = x dB \<or> y dA = y dB \<Longrightarrow> crossTest dA dB d1 d2 = crossTest dB dA d1 d2"
  unfolding crossTest_def by (auto simp: min_def max_def)

lemma crossTest_self: "\<not> crossTest dA dA d1 d2"
  unfolding crossTest_def by auto

lemma crossTest_spec:
  "x dA = x dB \<or> y dA = y dB \<Longrightarrow> x d1 = x d2 \<or> y d1 = y d2 \<Longrightarrow>
   crossTest dA dB d1 d2 = segmentsCross_spec dA dB d1 d2"
  unfolding crossTest_def segmentsCross_spec_def strictlyInside_def
  by (auto simp: min_def max_def)

lemma crossingLoop_commute:
  assumes "x (dataModel a) = x (dataModel b) \<or> y (dataModel a) = y (dataModel b)"
  shows "crossingLoop a b ns es = crossingLoop b a ns es"
proof (induction es)
  case Nil
  show ?case by simp
next
  case (Cons e es)
  show ?case
    unfolding crossingLoop_Cons Cons.IH crossTest_commute[OF assms]
    by (auto split: option.splits)
qed

text \<open>
  Claim C6. \<open>canConnect\<close> gives the same answer (or raises the same error) for the two
  houses in either order, for every list of houses and every placed-edge map.
\<close>

theorem canConnect_symmetric: "canConnect a b allNodes edges = canConnect b a allNodes edges"
proof (cases "x (dataModel a) = x (dataModel b) \<or> y (dataModel a) = y (dataModel b)")
  case True
  then show ?thesis
    using nodeBetweenLoop_commute[OF True, of allNodes]
          crossingLoop_commute[OF True, of allNodes "getAllEdges edges"]
    by (auto simp: canConnect_def Let_def)
next
  case False
  then show ?thesis by (auto simp: canConnect_def Let_def)
qed

lemma crossingLoop_self_cases:
  "crossingLoop a a ns es = Inr False \<or> crossingLoop a a ns es = Inl TypeError"
proof (induction es)
  case Nil
  show ?case by simp
next
  case (Cons e es)
  then show ?case
    unfolding crossingLoop_Cons by (auto simp: crossTest_self split: option.splits)
qed

lemma crossingLoop_self_known:
  "list_all (edgeKnown ns) es \<Longrightarrow> crossingLoop a a ns es = Inr False"
proof (induction es)
  case Nil
  show ?case by simp
next
  case (Cons e es)
  then show ?case
    unfolding crossingLoop_Cons
    by (auto simp: crossTest_self edgeKnown_def split: option.splits)
qed

text \<open>
  The placed edges join houses of the list, whatever calls on houses of the list have
  been made; and for a house paired with itself \<open>canConnect\<close> never answers false.
\<close>

lemma findHouse_member:
  "h \<in> set allNodes \<Longrightarrow> findHouse allNodes (nodeId (dataModel h)) \<noteq> None"
  by (auto simp: findHouse_def find_None_iff)

lemma edgeKnown_placed:
  "a \<in> set allNodes \<Longrightarrow> b \<in> set allNodes \<Longrightarrow>
   edgeKnown allNodes \<lparr>nodeA = nodeId (dataModel a), nodeB = nodeId (dataModel b), count = c\<rparr>"
  by (simp add: edgeKnown_def findHouse_member)

lemma edgeKnown_update:
  assumes "list_all (edgeKnown allNodes) (getAllEdges edges)" "edgeKnown allNodes e"
  shows "list_all (edgeKnown allNodes) (getAllEdges (AList.update k e edges))"
  using assms set_update_subset[of k e edges]
  by (auto simp: list_all_iff getAllEdges_def)

lemma edgeKnown_delete:
  assumes "list_all (edgeKnown allNodes) (getAllEdges edges)"
  shows "list_all (edgeKnown allNodes) (getAllEdges (AList.delete k edges))"
  using assms set_delete_subset[of k edges]
  by (auto simp: list_all_iff getAllEdges_def)

lemma edgeKnown_applyAction:
  assumes "list_all (edgeKnown allNodes) (getAllEdges edges)" "actionOn allNodes act"
  shows "list_all (edgeKnown allNodes) (getAllEdges (applyAction act edges))"
proof (cases act)
  case (Toggle a b)
  with assms(2) have m: "a \<in> set allNodes" "b \<in> set allNodes" by simp_all
  show ?thesis
    unfolding Toggle applyAction.simps toggleConnection_def Let_def
    by (simp add: edgeKnown_update[OF assms(1) edgeKnown_placed[OF m]]
                  edgeKnown_delete[OF assms(1)])
next
  case (SetConn a b cnt)
  with assms(2) have m: "a \<in> set allNodes" "b \<in> set allNodes" by simp_all
  show ?thesis
    unfolding SetConn applyAction.simps setConnection_def Let_def
    by (simp add: edgeKnown_update[OF assms(1) edgeKnown_placed[OF m]]
                  edgeKnown_delete[OF assms(1)])
next
  case Reset
  show ?thesis by (simp add: Reset reset_def getAllEdges_def)
qed

lemma edgeKnown_fold:
  "list_all (edgeKnown allNodes) (getAllEdges edges) \<Longrightarrow> list_all (actionOn allNodes) acts \<Longrightarrow>
   list_all (edgeKnown allNodes) (getAllEdges (fold applyAction acts edges))"
proof (induction acts arbitrary: edges)
  case Nil
  then show ?case by simp
next
  case (Cons act acts)
  from Cons.prems(2) have a: "actionOn allNodes act" and r: "list_all (actionOn allNodes) acts"
    by simp_all
  from Cons.IH[OF edgeKnown_applyAction[OF Cons.prems(1) a] r] show ?case by simp
qed

lemma canConnect_self_cases:
  "canConnect a a allNodes edges = Inr True \<or> canConnect a a allNodes edges = Inl TypeError"
  using crossingLoop_self_cases[of a allNodes "getAllEdges edges"]
  by (auto simp: canConnect_def Let_def nodeBetweenLoop_self)

text \<open>
  Claim C10. Whatever sequence of \<open>toggleConnection\<close>, \<open>setConnection\<close> and \<open>reset\<close> calls on
  houses of \<open>allNodes\<close> has built the placed-edge map, and for every house \<open>a\<close>,
  \<open>canConnect a a allNodes\<close> returns true: the alignment test passes, no house lies strictly
  between a point and itself, and no placed edge crosses a segment of length zero.
\<close>

theorem canConnect_self:
  assumes "list_all (actionOn allNodes) acts"
  shows "canConnect a a allNodes (fold applyAction acts []) = Inr True"
proof -
  have "list_all (edgeKnown allNodes) (getAllEdges (fold applyAction acts []))"
    using assms by (intro edgeKnown_fold) (simp_all add: getAllEdges_def)
  from crossingLoop_self_known[OF this, of a] show ?thesis
    by (simp add: canConnect_def Let_def nodeBetweenLoop_self)
qed

theorem canConnect_self_witness:
  "list_all (actionOn crossScene)
     [Toggle (mkHouse 0 ''n_0'' 0 1 1) (mkHouse 1 ''n_1'' 2 1 1),
      SetConn (mkHouse 2 ''n_2'' 1 0 1) (mkHouse 3 ''n_3'' 1 2 1) 2,
      Toggle (mkHouse 1 ''n_1'' 2 1 1) (mkHouse 0 ''n_0'' 0 1 1)]
   \<and> getAllEdges (fold applyAction
        [Toggle (mkHouse 0 ''n_0'' 0 1 1) (mkHouse 1 ''n_1'' 2 1 1),
         SetConn (mkHouse 2 ''n_2'' 1 0 1) (mkHouse 3 ''n_3'' 1 2 1) 2,
         Toggle (mkHouse 1 ''n_1'' 2 1 1) (mkHouse 0 ''n_0'' 0 1 1)] [])
      = [\<lparr>nodeA = ''n_1'', nodeB = ''n_0'', count = 2\<rparr>,
         \<lparr>nodeA = ''n_2'', nodeB = ''n_3'', count = 2\<rparr>]
   \<and> canConnect (mkHouse 2 ''n_2'' 1 0 1) (mkHouse 2 ''n_2'' 1 0 1) crossScene
        (fold applyAction
          [Toggle (mkHouse 0 ''n_0'' 0 1 1) (mkHouse 1 ''n_1'' 2 1 1),
           SetConn (mkHouse 2 ''n_2'' 1 0 1) (mkHouse 3 ''n_3'' 1 2 1) 2,
           Toggle (mkHouse 1 ''n_1'' 2 1 1) (mkHouse 0 ''n_0'' 0 1 1)] []) = Inr True"
  using canConnect_self[of crossScene
     "[Toggle (mkHouse 0 ''n_0'' 0 1 1) (mkHouse 1 ''n_1'' 2 1 1),
       SetConn (mkHouse 2 ''n_2'' 1 0 1) (mkHouse 3 ''n_3'' 1 2 1) 2,
       Toggle (mkHouse 1 ''n_1'' 2 1 1) (mkHouse 0 ''n_0'' 0 1 1)]" "mkHouse 2 ''n_2'' 1 0 1"]
  by (simp add: crossScene_def mkHouse_def toggleConnection_def setConnection_def getEdgeKey_def
        getAllEdges_def)

lemma nodeBetweenLoop_spec:
  assumes "aligned_spec (dataModel a) (dataModel b)"
  shows "nodeBetweenLoop a b ns \<longleftrightarrow>
     (\<exists>other\<in>set ns. objRef other \<noteq> objRef a \<and> objRef other \<noteq> objRef b \<and>
        isBetween_spec (dataModel a) (dataModel b) (dataModel other))"
  using assms unfolding nodeBetweenLoop_iff aligned_spec_def
  by (simp add: betweenTest_spec)

lemma crossingLoop_spec:
  assumes "aligned_spec (dataModel a) (dataModel b)" "list_all (edgeKnownAligned ns) es"
  shows "crossingLoop a b ns es =
     Inr (\<exists>e\<in>set es. nodeA e \<noteq> nodeId (dataModel a) \<and> nodeA e \<noteq> nodeId (dataModel b) \<and>
            nodeB e \<noteq> nodeId (dataModel a) \<and> nodeB e \<noteq> nodeId (dataModel b) \<and>
            edgeCrosses_spec a b ns e)"
  using assms(2)
proof (induction es)
  case Nil
  then show ?case by simp
next
  case (Cons e es)
  from Cons.prems obtain h1 h2 where h: "findHouse ns (nodeA e) = Some h1"
     "findHouse ns (nodeB e) = Some h2" "aligned_spec (dataModel h1) (dataModel h2)"
    by (auto simp: edgeKnownAligned_def split: option.splits)
  have IH: "crossingLoop a b ns es =
     Inr (\<exists>e\<in>set es. nodeA e \<noteq> nodeId (dataModel a) \<and> nodeA e \<noteq> nodeId (dataModel b) \<and>
            nodeB e \<noteq> nodeId (dataModel a) \<and> nodeB e \<noteq> nodeId (dataModel b) \<and>
            edgeCrosses_spec a b ns e)"
    using Cons by simp
  have cross: "edgeCrosses_spec a b ns e =
      crossTest (dataModel a) (dataModel b) (dataModel h1) (dataModel h2)"
    using crossTest_spec[of "dataModel a" "dataModel b" "dataModel h1" "dataModel h2"] assms(1) h(3)
    by (simp add: edgeCrosses_spec_def h aligned_spec_def)
  show ?case
    unfolding crossingLoop_Cons IH h option.case
    by (auto simp: cross)
qed

text \<open>
  Claim C3. When every placed edge joins two aligned houses of the list, \<open>canConnect a b\<close>
  answers false exactly when \<open>a\<close> and \<open>b\<close> are not aligned, or another house lies strictly
  between them on their grid line, or the segment from \<open>a\<close> to \<open>b\<close> strictly crosses a
  placed edge neither of whose endpoints is \<open>a\<close> or \<open>b\<close>; otherwise it answers true.
  Placed edges that share an endpoint with the pair take no part in the crossing test.
\<close>

theorem canConnect_spec:
  assumes "list_all (edgeKnownAligned allNodes) (getAllEdges edges)"
  shows "canConnect a b allNodes edges =
     Inr (\<not> (\<not> aligned_spec (dataModel a) (dataModel b)
            \<or> (\<exists>other\<in>set allNodes. objRef other \<noteq> objRef a \<and> objRef other \<noteq> objRef b \<and>
                  isBetween_spec (dataModel a) (dataModel b) (dataModel other))
            \<or> (\<exists>e\<in>set (getAllEdges edges).
                  nodeA e \<noteq> nodeId (dataModel a) \<and> nodeA e \<noteq> nodeId (dataModel b) \<and>
                  nodeB e \<noteq> nodeId (dataModel a) \<and> nodeB e \<noteq> nodeId (dataModel b) \<and>
                  edgeCrosses_spec a b allNodes e)))"
proof (cases "aligned_spec (dataModel a) (dataModel b)")
  case False
  then show ?thesis by (auto simp: canConnect_def Let_def aligned_spec_def)
next
  case True
  then have al: "(x (dataModel a) \<noteq> x (dataModel b) \<and> y (dataModel a) \<noteq> y (dataModel b)) = False"
    by (auto simp: aligned_spec_def)
  show ?thesis
    unfolding canConnect_def Let_def al if_False
      nodeBetweenLoop_spec[OF True, of allNodes] crossingLoop_spec[OF True assms]
    by (simp add: True)
qed

theorem canConnect_spec_witness:
  "list_all (edgeKnownAligned crossScene)
     (getAllEdges (snd (toggleConnection (mkHouse 0 ''n_0'' 0 1 1) (mkHouse 1 ''n_1'' 2 1 1) [])))
   \<and> canConnect (mkHouse 2 ''n_2'' 1 0 1) (mkHouse 3 ''n_3'' 1 2 1) crossScene
        (snd (toggleConnection (mkHouse 0 ''n_0'' 0 1 1) (mkHouse 1 ''n_1'' 2 1 1) [])) = Inr False
   \<and> edgeCrosses_spec (mkHouse 2 ''n_2'' 1 0 1) (mkHouse 3 ''n_3'' 1 2 1) crossScene
        \<lparr>nodeA = ''n_0'', nodeB = ''n_1'', count = 1\<rparr>"
  using canConnect_spec[of crossScene
          "snd (toggleConnection (mkHouse 0 ''n_0'' 0 1 1) (mkHouse 1 ''n_1'' 2 1 1) [])"
          "mkHouse 2 ''n_2'' 1 0 1" "mkHouse 3 ''n_3'' 1 2 1"]
  by (simp add: crossScene_def mkHouse_def toggleConnection_def getEdgeKey_def getAllEdges_def
        edgeKnownAligned_def edgeCrosses_spec_def segmentsCross_spec_def strictlyInside_def
        aligned_spec_def findHouse_def)

section \<open>Properties of the win condition\<close>

lemma updateConnectionCount_simps [simp]:
  "nodeId (dataModel (updateConnectionCount c h)) = nodeId (dataModel h)"
  "currentConnections (dataModel (updateConnectionCount c h)) = c"
  "requiredConnections (dataModel (updateConnectionCount c h)) = requiredConnections (dataModel h)"
  "updateConnectionCount c (updateConnectionCount c' h) = updateConnectionCount c h"
  by (simp_all add: updateConnectionCount_def)

lemma addConnections_addAll:
  "addConnections i c (addAll d hs) = addAll (d(i := d i + c)) hs"
proof (induction hs arbitrary: d)
  case Nil
  show ?case by simp
next
  case (Cons h hs)
  show ?case
  proof (cases "nodeId (dataModel h) = i")
    case True
    have "addAll (d(i := d i + c)) (h # hs) =
          updateConnectionCount (currentConnections (dataModel h) + (d i + c)) h
            # addAll (d(i := 0)) hs"
      by (simp only: addAll.simps True fun_upd_same fun_upd_upd)
    moreover have "addConnections i c (addAll d (h # hs)) =
          updateConnectionCount (currentConnections (dataModel h) + d i + c) h
            # addAll (d(i := 0)) hs"
      by (simp only: addAll.simps addConnections.simps True updateConnectionCount_simps
            refl if_True)
    ultimately show ?thesis by (simp only: add.assoc)
  next
    case False
    let ?k = "nodeId (dataModel h)"
    have ne: "i \<noteq> ?k" using False by blast
    have tw: "(d(i := d i + c))(?k := 0) = (d(?k := 0))(i := d i + c)"
      using False by (auto simp: fun_eq_iff)
    have ap: "(d(?k := 0)) i = d i" "(d(i := d i + c)) ?k = d ?k"
      using False by auto
    have "addConnections i c (addAll d (h # hs)) =
          updateConnectionCount (currentConnections (dataModel h) + d ?k) h
            # addConnections i c (addAll (d(?k := 0)) hs)"
      using False by (simp only: addAll.simps addConnections.simps updateConnectionCount_simps if_False)
    also have "\<dots> = updateConnectionCount (currentConnections (dataModel h) + d ?k) h
            # addAll ((d(?k := 0))(i := (d(?k := 0)) i + c)) hs"
      by (simp only: Cons.IH)
    also have "\<dots> = addAll (d(i := d i + c)) (h # hs)"
      by (simp only: addAll.simps tw ap)
    finally show ?thesis .
  qed
qed

lemma sumUp_addAll: "sumUp e (addAll d hs) = addAll (\<lambda>i. d i + contribution e i) hs"
proof -
  have "(d(nodeA e := d (nodeA e) + count e))
          (nodeB e := (d(nodeA e := d (nodeA e) + count e)) (nodeB e) + count e)
        = (\<lambda>i. d i + contribution e i)"
    by (auto simp: fun_eq_iff contribution_def)
  then show ?thesis by (simp only: sumUp_def addConnections_addAll)
qed

lemma fold_sumUp_addAll:
  "fold sumUp es (addAll d hs) = addAll (\<lambda>i. d i + degreeOf es i) hs"
proof (induction es arbitrary: d)
  case Nil
  show ?case by (simp add: degreeOf_def)
next
  case (Cons e es)
  have "(\<lambda>i. d i + contribution e i + degreeOf es i) = (\<lambda>i. d i + degreeOf (e # es) i)"
    by (auto simp: fun_eq_iff degreeOf_def)
  then show ?case by (simp add: sumUp_addAll Cons.IH)
qed

lemma addAll_zero_reset:
  "addAll (\<lambda>i. 0) (map (updateConnectionCount 0) hs) = map (updateConnectionCount 0) hs"
proof (induction hs)
  case Nil show ?case by simp
next
  case (Cons h hs)
  have "(\<lambda>i. 0::nat)(nodeId (dataModel h) := 0) = (\<lambda>i. 0)" by (simp add: fun_eq_iff)
  with Cons show ?case by simp
qed

lemma recount: "fold sumUp es (map (updateConnectionCount 0) hs)
   = addAll (degreeOf es) (map (updateConnectionCount 0) hs)"
  using fold_sumUp_addAll[of es "\<lambda>i. 0" "map (updateConnectionCount 0) hs"]
  by (simp add: addAll_zero_reset)

lemma length_addAll [simp]: "length (addAll d hs) = length hs"
  by (induction hs arbitrary: d) auto

lemma addAll_cong:
  "(\<And>h. h \<in> set hs \<Longrightarrow> d (nodeId (dataModel h)) = d' (nodeId (dataModel h)))
   \<Longrightarrow> addAll d hs = addAll d' hs"
proof (induction hs arbitrary: d d')
  case Nil
  show ?case by simp
next
  case (Cons h hs)
  have hd: "d (nodeId (dataModel h)) = d' (nodeId (dataModel h))"
    by (rule Cons.prems) simp
  have "addAll (d(nodeId (dataModel h) := 0)) hs = addAll (d'(nodeId (dataModel h) := 0)) hs"
  proof (rule Cons.IH)
    fix h' assume "h' \<in> set hs"
    then have "d (nodeId (dataModel h')) = d' (nodeId (dataModel h'))"
      by (intro Cons.prems) simp
    then show "(d(nodeId (dataModel h) := 0)) (nodeId (dataModel h')) =
               (d'(nodeId (dataModel h) := 0)) (nodeId (dataModel h'))"
      by simp
  qed
  with hd show ?case by (simp only: addAll.simps)
qed

lemma addAll_distinct:
  "distinct (map houseId hs) \<Longrightarrow>
   addAll d hs =
   map (\<lambda>h. updateConnectionCount (currentConnections (dataModel h) + d (nodeId (dataModel h))) h) hs"
proof (induction hs arbitrary: d)
  case Nil show ?case by simp
next
  case (Cons h hs)
  have "addAll (d(nodeId (dataModel h) := 0)) hs = addAll d hs"
  proof (rule addAll_cong)
    fix h' assume "h' \<in> set hs"
    then have "houseId h' \<in> set (map houseId hs)" by simp
    with Cons.prems have "houseId h' \<noteq> houseId h" by auto
    then have "nodeId (dataModel h') \<noteq> nodeId (dataModel h)" by (simp add: houseId_def)
    then show "(d(nodeId (dataModel h) := 0)) (nodeId (dataModel h')) = d (nodeId (dataModel h'))"
      by simp
  qed
  with Cons show ?case by simp
qed

lemma recount_distinct:
  assumes "distinct (map houseId hs)"
  shows "fold sumUp es (map (updateConnectionCount 0) hs)
       = map (\<lambda>h. updateConnectionCount (degreeOf es (nodeId (dataModel h))) h) hs"
proof -
  have "map houseId (map (updateConnectionCount 0) hs) = map houseId hs"
    by (induction hs) (simp_all add: houseId_def)
  with assms have "distinct (map houseId (map (updateConnectionCount 0) hs))"
    by (simp only:)
  then show ?thesis
    unfolding recount by (simp add: addAll_distinct comp_def)
qed

subsection \<open>The adjacency list\<close>

lemma neighbors_update:
  "neighbors (AList.update k ns adj) i = (if i = k then ns else neighbors adj i)"
  by (simp add: neighbors_def update_conv')

lemma addAdjacency_alt:
  "addAdjacency e adj =
     pushAdj (nodeB e) (nodeA e)
       (pushAdj (nodeA e) (nodeB e) (ensureKey (nodeB e) (ensureKey (nodeA e) adj)))"
  by (simp add: addAdjacency_def ensureKey_def Let_def)

lemma neighbors_ensureKey: "neighbors (ensureKey k adj) i = neighbors adj i"
  by (simp add: ensureKey_def neighbors_update) (simp add: neighbors_def)

lemma map_of_ensureKey:
  "map_of (ensureKey k adj) i = None \<longleftrightarrow> map_of adj i = None \<and> i \<noteq> k"
  by (simp add: ensureKey_def update_conv')

lemma map_of_pushAdj: "map_of (pushAdj k n adj) i = None \<longleftrightarrow> map_of adj i = None"
  by (cases "map_of adj k") (simp_all add: pushAdj_def update_conv')

lemma neighbors_pushAdj:
  "map_of adj k \<noteq> None \<Longrightarrow>
   set (neighbors (pushAdj k n adj) i) =
     (if i = k then insert n (set (neighbors adj i)) else set (neighbors adj i))"
  by (cases "map_of adj k") (simp_all add: pushAdj_def neighbors_update, simp add: neighbors_def)

lemma neighbors_addAdjacency:
  "set (neighbors (addAdjacency e adj) i) =
     set (neighbors adj i) \<union> {j. (nodeA e = i \<and> nodeB e = j) \<or> (nodeB e = i \<and> nodeA e = j)}"
proof -
  let ?X = "ensureKey (nodeB e) (ensureKey (nodeA e) adj)"
  have a: "map_of ?X (nodeA e) \<noteq> None" by (simp add: map_of_ensureKey)
  have b: "map_of (pushAdj (nodeA e) (nodeB e) ?X) (nodeB e) \<noteq> None"
    by (simp add: map_of_pushAdj map_of_ensureKey)
  have "set (neighbors (addAdjacency e adj) i) =
        (if i = nodeB e then {nodeA e} else {}) \<union> ((if i = nodeA e then {nodeB e} else {}) \<union>
          set (neighbors adj i))"
    unfolding addAdjacency_alt neighbors_pushAdj[OF b] neighbors_pushAdj[OF a] neighbors_ensureKey
    by simp
  also have "\<dots> = set (neighbors adj i) \<union>
       {j. (nodeA e = i \<and> nodeB e = j) \<or> (nodeB e = i \<and> nodeA e = j)}"
    by auto
  finally show ?thesis .
qed

lemma neighbors_fold:
  "set (neighbors (fold addAdjacency es adj) i) = set (neighbors adj i) \<union> adjacent es `` {i}"
proof (induction es arbitrary: adj)
  case Nil
  show ?case by (simp add: adjacent_def)
next
  case (Cons e es)
  have "adjacent (e # es) `` {i} =
        {j. (nodeA e = i \<and> nodeB e = j) \<or> (nodeB e = i \<and> nodeA e = j)} \<union> adjacent es `` {i}"
    by (auto simp: adjacent_def)
  then show ?case by (simp add: Cons.IH neighbors_addAdjacency Un_assoc)
qed

lemma neighbors_built: "set (neighbors (fold addAdjacency es []) i) = adjacent es `` {i}"
  by (simp add: neighbors_fold) (simp add: neighbors_def)

subsection \<open>The search visits exactly the reachable ids\<close>

lemma bfsLoop_distinct: "distinct vis \<Longrightarrow> distinct (bfsLoop adj que vis)"
proof (induction adj que vis rule: bfsLoop.induct)
  case (1 adj visited)
  then show ?case by simp
next
  case (2 adj cur queue visited)
  obtain new where new:
    "visitNeighbors (neighbors adj cur) (visited, queue) = (visited @ new, queue @ new)"
    "distinct visited \<longrightarrow> distinct (visited @ new)"
    using visitNeighbors_shape[of "neighbors adj cur" visited queue] by blast
  from new(2) "2.prems" have "distinct (visited @ new)" by blast
  with "2.IH" new(1) show ?case by simp
qed

lemma bfsLoop_superset: "set vis \<subseteq> set (bfsLoop adj que vis)"
proof (induction adj que vis rule: bfsLoop.induct)
  case (1 adj visited)
  then show ?case by simp
next
  case (2 adj cur queue visited)
  obtain new where new:
    "visitNeighbors (neighbors adj cur) (visited, queue) = (visited @ new, queue @ new)"
    using visitNeighbors_shape[of "neighbors adj cur" visited queue] by blast
  from "2.IH" new have "set (visited @ new) \<subseteq> set (bfsLoop adj (cur # queue) visited)"
    by simp
  then show ?case by simp
qed

lemma bfsLoop_closed:
  assumes "set que \<subseteq> set vis"
    and "\<forall>nd\<in>set vis - set que. set (neighbors adj nd) \<subseteq> set vis"
  shows "\<forall>nd\<in>set (bfsLoop adj que vis). set (neighbors adj nd) \<subseteq> set (bfsLoop adj que vis)"
  using assms
proof (induction adj que vis rule: bfsLoop.induct)
  case (1 adj visited)
  then show ?case by simp
next
  case (2 adj cur queue visited)
  obtain new where new:
    "visitNeighbors (neighbors adj cur) (visited, queue) = (visited @ new, queue @ new)"
    "set new = set (neighbors adj cur) - set visited"
    using visitNeighbors_shape[of "neighbors adj cur" visited queue] by blast
  have que: "set (queue @ new) \<subseteq> set (visited @ new)"
    using "2.prems"(1) by auto
  have c: "\<forall>nd\<in>set (visited @ new) - set (queue @ new).
             set (neighbors adj nd) \<subseteq> set (visited @ new)"
  proof
    fix nd assume nd: "nd \<in> set (visited @ new) - set (queue @ new)"
    show "set (neighbors adj nd) \<subseteq> set (visited @ new)"
    proof (cases "nd = cur")
      case True
      with new(2) show ?thesis by auto
    next
      case False
      with nd have "nd \<in> set visited - set (cur # queue)" by auto
      with "2.prems"(2) have "set (neighbors adj nd) \<subseteq> set visited" by blast
      then show ?thesis by auto
    qed
  qed
  from "2.IH" que c new(1) show ?case by simp
qed

lemma bfsLoop_within:
  assumes "set que \<subseteq> S" "set vis \<subseteq> S" "\<forall>nd\<in>S. set (neighbors adj nd) \<subseteq> S"
  shows "set (bfsLoop adj que vis) \<subseteq> S"
  using assms
proof (induction adj que vis rule: bfsLoop.induct)
  case (1 adj visited)
  then show ?case by simp
next
  case (2 adj cur queue visited)
  obtain new where new:
    "visitNeighbors (neighbors adj cur) (visited, queue) = (visited @ new, queue @ new)"
    "set new = set (neighbors adj cur) - set visited"
    using visitNeighbors_shape[of "neighbors adj cur" visited queue] by blast
  from "2.prems"(1) have "cur \<in> S" by simp
  with "2.prems"(3) new(2) have n: "set new \<subseteq> S" by blast
  have "set (queue @ new) \<subseteq> S" "set (visited @ new) \<subseteq> S"
    using n "2.prems"(1,2) by auto
  with "2.IH" "2.prems"(3) new(1) show ?case by simp
qed

lemma bfs_reachable:
  "set (bfsLoop (fold addAdjacency es []) [s] [s]) = reachable es s"
proof
  let ?adj = "fold addAdjacency es []"
  have step: "set (neighbors ?adj nd) = adjacent es `` {nd}" for nd
    by (rule neighbors_built)
  show "set (bfsLoop ?adj [s] [s]) \<subseteq> reachable es s"
  proof (rule bfsLoop_within)
    show "set [s] \<subseteq> reachable es s" "set [s] \<subseteq> reachable es s"
      by (simp_all add: reachable_def)
    show "\<forall>nd\<in>reachable es s. set (neighbors ?adj nd) \<subseteq> reachable es s"
      unfolding step reachable_def by (auto intro: rtrancl_into_rtrancl)
  qed
  have closed: "\<forall>nd\<in>set (bfsLoop ?adj [s] [s]). set (neighbors ?adj nd) \<subseteq> set (bfsLoop ?adj [s] [s])"
    by (rule bfsLoop_closed) simp_all
  have start: "s \<in> set (bfsLoop ?adj [s] [s])"
    using bfsLoop_superset[of "[s]" ?adj "[s]"] by simp
  show "reachable es s \<subseteq> set (bfsLoop ?adj [s] [s])"
  proof
    fix w assume "w \<in> reachable es s"
    then have "(s, w) \<in> (adjacent es)\<^sup>*" by (simp add: reachable_def)
    then show "w \<in> set (bfsLoop ?adj [s] [s])"
    proof (induction rule: rtrancl_induct)
      case base
      show ?case by (rule start)
    next
      case (step nd w)
      from step.hyps(2) have "w \<in> set (neighbors ?adj nd)" unfolding neighbors_built by blast
      with closed step.IH show ?case by blast
    qed
  qed
qed

lemma bfs_length:
  "length (bfsLoop (fold addAdjacency es []) [s] [s]) = card (reachable es s)"
proof -
  have "distinct (bfsLoop (fold addAdjacency es []) [s] [s])"
    by (rule bfsLoop_distinct) simp
  then show ?thesis
    using bfs_reachable[of es s] distinct_card by fastforce
qed

subsection \<open>The result of \<open>checkWinCondition\<close>\<close>

lemma hd_addAll:
  "hs \<noteq> [] \<Longrightarrow> nodeId (dataModel (hd (addAll d hs))) = nodeId (dataModel (hd hs))"
  by (cases hs) simp_all

lemma fold_sumUp_Nil: "fold sumUp es [] = []"
  by (induction es) (simp_all add: sumUp_def)

lemma checkWinCondition_char:
  "checkWinCondition houses es =
     (addAll (degreeOf es) (map (updateConnectionCount 0) houses),
      countsCorrect (degreeOf es) houses \<and> houses \<noteq> [] \<and>
      card (reachable es (nodeId (dataModel (hd houses)))) = length houses)"
proof (cases houses)
  case Nil
  then show ?thesis by (simp add: checkWinCondition_def countsCorrect_def fold_sumUp_Nil)
next
  case (Cons h0 rest)
  let ?h2 = "addAll (degreeOf es) (map (updateConnectionCount 0) houses)"
  obtain g0 grest where g: "?h2 = g0 # grest" "nodeId (dataModel g0) = nodeId (dataModel h0)"
    using Cons by simp
  have len: "length ?h2 = length houses" by simp
  show ?thesis
    unfolding checkWinCondition_def Let_def recount
    using Cons len
    by (simp only: g list.case bfs_length countsCorrect_def) (auto simp: g)
qed

lemma degreeOf_spec:
  assumes "\<forall>e\<in>set es. nodeA e \<noteq> nodeB e"
  shows "degreeOf es i = degree_spec es i"
  using assms by (induction es) (auto simp: degreeOf_def degree_spec_def contribution_def)

lemma countsCorrect_distinct:
  assumes "distinct (map houseId houses)"
  shows "countsCorrect d houses \<longleftrightarrow>
         (\<forall>h\<in>set houses. d (houseId h) = requiredConnections (dataModel h))"
proof -
  have "map houseId (map (updateConnectionCount 0) houses) = map houseId houses"
    by (induction houses) (simp_all add: houseId_def)
  with assms have "distinct (map houseId (map (updateConnectionCount 0) houses))"
    by (simp only:)
  then show ?thesis
    unfolding countsCorrect_def
    by (simp add: addAll_distinct list_all_iff houseId_def)
qed

lemma reachable_within:
  assumes "s \<in> I" "\<forall>e\<in>set es. nodeA e \<in> I \<and> nodeB e \<in> I"
  shows "reachable es s \<subseteq> I"
proof
  fix w assume "w \<in> reachable es s"
  then have "(s, w) \<in> (adjacent es)\<^sup>*" by (simp add: reachable_def)
  then show "w \<in> I"
  proof (induction rule: rtrancl_induct)
    case base
    show ?case by (rule assms(1))
  next
    case (step nd w)
    from step.hyps(2) assms(2) show ?case by (auto simp: adjacent_def)
  qed
qed

lemma checkWinCondition_wf:
  assumes d: "distinct (map houseId houses)" and wf: "list_all (edgeWellFormed houses) es"
  shows "snd (checkWinCondition houses es) \<longleftrightarrow>
           (\<forall>h\<in>set houses. degree_spec es (houseId h) = requiredConnections (dataModel h))
           \<and> houses \<noteq> []
           \<and> (\<forall>h\<in>set houses. houseId h \<in> set (bfsVisited houses es))"
proof (cases "houses = []")
  case True
  then show ?thesis by (simp add: checkWinCondition_char)
next
  case False
  let ?s = "houseId (hd houses)"
  let ?I = "set (map houseId houses)"
  have noloop: "\<forall>e\<in>set es. nodeA e \<noteq> nodeB e"
    and known: "\<forall>e\<in>set es. nodeA e \<in> ?I \<and> nodeB e \<in> ?I"
    using wf by (auto simp: list_all_iff edgeWellFormed_def)
  have sI: "?s \<in> ?I" using False by (cases houses) auto
  have sub: "reachable es ?s \<subseteq> ?I" by (rule reachable_within[OF sI known])
  have cardI: "card ?I = length houses" using d distinct_card by fastforce
  have conn: "card (reachable es ?s) = length houses \<longleftrightarrow>
              (\<forall>h\<in>set houses. houseId h \<in> reachable es ?s)"
  proof
    assume "card (reachable es ?s) = length houses"
    with cardI have "card (reachable es ?s) = card ?I" by simp
    with sub have "reachable es ?s = ?I" by (intro card_subset_eq) simp_all
    then show "\<forall>h\<in>set houses. houseId h \<in> reachable es ?s" by simp
  next
    assume "\<forall>h\<in>set houses. houseId h \<in> reachable es ?s"
    then have "?I \<subseteq> reachable es ?s" by auto
    with sub have "reachable es ?s = ?I" by blast
    with cardI show "card (reachable es ?s) = length houses" by simp
  qed
  have vis: "set (bfsVisited houses es) = reachable es ?s"
    unfolding bfsVisited_def by (rule bfs_reachable)
  show ?thesis
    unfolding checkWinCondition_char snd_conv countsCorrect_distinct[OF d]
      degreeOf_spec[OF noloop] vis
    using conn False by (simp add: houseId_def)
qed

text \<open>
  Claim C2. In a scene whose houses have distinct ids and whose edges join two different
  houses of the scene, \<open>checkWinCondition\<close> declares the puzzle solved exactly when every
  house's degree (the sum of the multiplicities of its incident edges) equals its
  \<open>requiredConnections\<close>, there is at least one house, and the breadth-first search from
  the first house visits every house. The search visits exactly the ids connected to the
  first house by a path of edges, whatever their multiplicities. With no house the puzzle
  is never declared solved.
\<close>

theorem checkWinCondition_spec:
  "(distinct (map houseId houses) \<and> list_all (edgeWellFormed houses) es \<longrightarrow>
      (snd (checkWinCondition houses es) \<longleftrightarrow>
         (\<forall>h\<in>set houses. degree_spec es (houseId h) = requiredConnections (dataModel h))
         \<and> houses \<noteq> []
         \<and> (\<forall>h\<in>set houses. houseId h \<in> set (bfsVisited houses es))))
   \<and> set (bfsVisited houses es) = reachable es (houseId (hd houses))
   \<and> \<not> snd (checkWinCondition [] es)"
proof -
  have "set (bfsVisited houses es) = reachable es (houseId (hd houses))"
    unfolding bfsVisited_def by (rule bfs_reachable)
  moreover have "\<not> snd (checkWinCondition [] es)"
    by (simp add: checkWinCondition_char)
  ultimately show ?thesis
    using checkWinCondition_wf[of houses es] by blast
qed

theorem checkWinCondition_spec_witness:
  "distinct (map houseId squareScene) \<and> list_all (edgeWellFormed squareScene) squareLoop
   \<and> snd (checkWinCondition squareScene squareLoop)
   \<and> map (\<lambda>h. degree_spec squareLoop (houseId h)) squareScene = [2, 2, 2, 2]
   \<and> set (bfsVisited squareScene squareLoop) = {''n_0'', ''n_1'', ''n_2'', ''n_3''}"
proof -
  have deg: "map (\<lambda>h. degree_spec squareLoop (houseId h)) squareScene = [2, 2, 2, 2]"
    by (simp add: squareScene_def squareLoop_def mkHouse_def houseId_def degree_spec_def)
  have wf: "distinct (map houseId squareScene) \<and> list_all (edgeWellFormed squareScene) squareLoop"
    by (simp add: squareScene_def squareLoop_def mkHouse_def houseId_def edgeWellFormed_def)
  have solved: "snd (checkWinCondition squareScene squareLoop)"
    by (simp add: checkWinCondition_def squareScene_def squareLoop_def mkHouse_def sumUp_def
          updateConnectionCount_def addAdjacency_def pushAdj_def neighbors_def)
  have "set (bfsVisited squareScene squareLoop) = {''n_0'', ''n_1'', ''n_2'', ''n_3''}"
    by (simp add: bfsVisited_def squareScene_def squareLoop_def mkHouse_def houseId_def
          addAdjacency_def pushAdj_def neighbors_def insert_commute)
  with wf solved deg checkWinCondition_spec[of squareScene squareLoop] show ?thesis by blast
qed

subsection \<open>Undoing a change of multiplicity\<close>

lemma hyphen_split_unique:
  "a @ CHR ''-'' # b = c @ CHR ''-'' # d \<Longrightarrow> CHR ''-'' \<notin> set a \<Longrightarrow> CHR ''-'' \<notin> set c
   \<Longrightarrow> a = c \<and> b = d"
proof (induction a arbitrary: c)
  case Nil
  then show ?case by (cases c) auto
next
  case (Cons ch a)
  then show ?case by (cases c) auto
qed

lemma getEdgeKey_inj:
  assumes "getEdgeKey a b = getEdgeKey c d" "plainId a" "plainId b" "plainId c" "plainId d"
  shows "{a, b} = {c, d}"
proof -
  have k: "\<And>p que. getEdgeKey p que = (if p < que then p @ CHR ''-'' # que else que @ CHR ''-'' # p)"
    by (simp add: getEdgeKey_def)
  show ?thesis
    using assms unfolding k plainId_def
    by (auto split: if_splits dest!: hyphen_split_unique)
qed

lemma delete_absent: "map_of al k = None \<Longrightarrow> AList.delete k al = al"
  by (induction al) (auto split: if_splits)

lemma update_absent: "map_of al k = None \<Longrightarrow> AList.update k val al = al @ [(k, val)]"
  by (induction al) (auto split: if_splits)

lemma split_present:
  "map_of al k = Some v0 \<Longrightarrow> distinct (map fst al) \<Longrightarrow>
   \<exists>xs ys. al = xs @ (k, v0) # ys \<and> map_of xs k = None \<and> map_of ys k = None"
proof (induction al)
  case Nil
  then show ?case by simp
next
  case (Cons p al)
  show ?case
  proof (cases "fst p = k")
    case True
    with Cons.prems have "p = (k, v0)" by (cases p) auto
    moreover from True Cons.prems have "map_of al k = None"
      by (auto simp: map_of_eq_None_iff)
    ultimately have "p # al = [] @ (k, v0) # al \<and> map_of [] k = None \<and> map_of al k = None"
      by simp
    then show ?thesis by blast
  next
    case False
    with Cons.prems have "map_of al k = Some v0" "distinct (map fst al)" by (cases p; auto)+
    with Cons.IH obtain xs ys where "al = xs @ (k, v0) # ys" "map_of xs k = None" "map_of ys k = None"
      by blast
    with False have "p # al = (p # xs) @ (k, v0) # ys \<and> map_of (p # xs) k = None \<and> map_of ys k = None"
      by (cases p) auto
    then show ?thesis by blast
  qed
qed

lemma update_middle:
  "map_of xs k = None \<Longrightarrow> AList.update k val (xs @ (k, v0) # ys) = xs @ (k, val) # ys"
  by (induction xs) (auto split: if_splits)

lemma delete_middle:
  "map_of xs k = None \<Longrightarrow> map_of ys k = None \<Longrightarrow> AList.delete k (xs @ (k, v0) # ys) = xs @ ys"
  by (simp add: delete_absent AList.delete_eq) (metis delete_absent AList.delete_eq)

lemma degreeOf_append: "degreeOf (xs @ ys) i = degreeOf xs i + degreeOf ys i"
  by (simp add: degreeOf_def)

lemma degreeOf_Cons: "degreeOf (e # es) i = contribution e i + degreeOf es i"
  by (simp add: degreeOf_def)

lemma adjacent_append: "adjacent (xs @ ys) = adjacent xs \<union> adjacent ys"
  by (auto simp: adjacent_def)

lemma adjacent_Cons:
  "adjacent (e # es) = {(nodeA e, nodeB e), (nodeB e, nodeA e)} \<union> adjacent es"
  by (auto simp: adjacent_def)

lemma same_pair_same_summary:
  assumes "{nodeA e, nodeB e} = {nodeA e', nodeB e'}" "count e = count e'"
  shows "contribution e = contribution e'"
    and "{(nodeA e, nodeB e), (nodeB e, nodeA e)} = {(nodeA e', nodeB e'), (nodeB e', nodeA e')}"
proof -
  from assms(1) consider "nodeA e = nodeA e'" "nodeB e = nodeB e'"
    | "nodeA e = nodeB e'" "nodeB e = nodeA e'"
    unfolding doubleton_eq_iff by blast
  then show "contribution e = contribution e'"
  proof cases
    case 1
    with assms(2) show ?thesis by (simp add: contribution_def fun_eq_iff)
  next
    case 2
    with assms(2) show ?thesis by (simp add: contribution_def fun_eq_iff)
  qed
  from assms(1) consider "nodeA e = nodeA e'" "nodeB e = nodeB e'"
    | "nodeA e = nodeB e'" "nodeB e = nodeA e'"
    unfolding doubleton_eq_iff by blast
  then show "{(nodeA e, nodeB e), (nodeB e, nodeA e)} = {(nodeA e', nodeB e'), (nodeB e', nodeA e')}"
  proof cases
    case 1
    then show ?thesis by simp
  next
    case 2
    then show ?thesis by (simp add: insert_commute)
  qed
qed

lemma checkWinCondition_cong:
  assumes "degreeOf es = degreeOf es'" "adjacent es = adjacent es'"
  shows "checkWinCondition houses es = checkWinCondition houses es'"
  unfolding checkWinCondition_char reachable_def assms ..

lemma summary_replace:
  assumes "{nodeA e, nodeB e} = {nodeA e', nodeB e'}" "count e = count e'"
  shows "degreeOf (xs @ e # ys) = degreeOf (xs @ e' # ys)"
    and "adjacent (xs @ e # ys) = adjacent (xs @ e' # ys)"
    and "degreeOf (xs @ e # ys) = degreeOf ((xs @ ys) @ [e'])"
    and "adjacent (xs @ e # ys) = adjacent ((xs @ ys) @ [e'])"
proof -
  note c = same_pair_same_summary(1)[OF assms] and pr = same_pair_same_summary(2)[OF assms]
  have nil: "adjacent [] = {}" "\<And>i. degreeOf [] i = 0"
    by (simp_all add: adjacent_def degreeOf_def)
  show "degreeOf (xs @ e # ys) = degreeOf (xs @ e' # ys)"
    by (simp add: fun_eq_iff degreeOf_append degreeOf_Cons c)
  show "adjacent (xs @ e # ys) = adjacent (xs @ e' # ys)"
    by (simp only: adjacent_append adjacent_Cons pr)
  show "degreeOf (xs @ e # ys) = degreeOf ((xs @ ys) @ [e'])"
    by (simp add: fun_eq_iff degreeOf_append degreeOf_Cons nil c)
  show "adjacent (xs @ e # ys) = adjacent ((xs @ ys) @ [e'])"
    unfolding adjacent_append adjacent_Cons pr nil by blast
qed

text \<open>
  Claim C8. In a map that satisfies the invariant of claim C9 and holds ids without
  hyphens, \<open>setConnection a b m\<close> followed by \<open>setConnection a b p\<close>, with \<open>p\<close> the
  multiplicity of the pair before the first call, gives the pair its multiplicity \<open>p\<close>
  back, and \<open>checkWinCondition\<close> returns what it returned before the two calls, for every
  list of houses and every \<open>m\<close>.
\<close>

theorem undo_roundtrip:
  assumes inv: "edgesInv edges"
    and plainE: "list_all (\<lambda>(k, e). plainId (nodeA e) \<and> plainId (nodeB e)) edges"
    and plainA: "plainId (nodeId (dataModel a))" and plainB: "plainId (nodeId (dataModel b))"
  shows "hasConnection
           (setConnection a b (hasConnection edges (nodeId (dataModel a)) (nodeId (dataModel b)))
              (setConnection a b m edges))
           (nodeId (dataModel a)) (nodeId (dataModel b))
         = hasConnection edges (nodeId (dataModel a)) (nodeId (dataModel b))
       \<and> checkWinCondition houses (getAllEdges
           (setConnection a b (hasConnection edges (nodeId (dataModel a)) (nodeId (dataModel b)))
              (setConnection a b m edges)))
         = checkWinCondition houses (getAllEdges edges)"
proof -
  let ?ia = "nodeId (dataModel a)" and ?ib = "nodeId (dataModel b)"
  let ?k = "getEdgeKey ?ia ?ib"
  let ?p = "hasConnection edges ?ia ?ib"
  let ?E = "\<lambda>c. \<lparr>nodeA = ?ia, nodeB = ?ib, count = c\<rparr>"
  let ?edges' = "setConnection a b ?p (setConnection a b m edges)"
  show ?thesis
  proof (cases "map_of edges ?k")
    case None
    then have p0: "?p = 0" by (simp add: hasConnection_def)
    have "?edges' = edges"
      unfolding p0 using None
      by (simp add: setConnection_def Let_def delete_absent delete_update_absent)
    then show ?thesis by simp
  next
    case (Some e0)
    then have mem: "(?k, e0) \<in> set edges" by (rule map_of_SomeD)
    with inv have e0: "count e0 = 1 \<or> count e0 = 2" "?k = getEdgeKey (nodeA e0) (nodeB e0)"
      by (auto simp: edgesInv_def list_all_iff)
    from mem plainE have "plainId (nodeA e0)" "plainId (nodeB e0)"
      by (auto simp: list_all_iff)
    with e0(2) plainA plainB have pair: "{nodeA e0, nodeB e0} = {?ia, ?ib}"
      by (intro getEdgeKey_inj) simp_all
    have p: "?p = count e0" using Some by (simp add: hasConnection_def)
    with e0(1) have pne: "?p \<noteq> 0" by auto
    from inv have dist: "distinct (map fst edges)" by (simp add: edgesInv_def)
    from split_present[OF Some dist] obtain xs ys where
      sp: "edges = xs @ (?k, e0) # ys" "map_of xs ?k = None" "map_of ys ?k = None"
      by blast
    have same: "{nodeA e0, nodeB e0} = {nodeA (?E ?p), nodeB (?E ?p)}" "count e0 = count (?E ?p)"
      using pair p by simp_all
    have e': "?edges' = AList.update ?k (?E ?p)
                 (if m = 0 then AList.delete ?k edges else AList.update ?k (?E m) edges)"
      using pne by (simp add: setConnection_def Let_def)
    have has: "hasConnection ?edges' ?ia ?ib = ?p"
      unfolding e' by (simp add: hasConnection_def map_of_update)
    have "getAllEdges ?edges' = map snd xs @ ?E ?p # map snd ys
        \<or> getAllEdges ?edges' = (map snd xs @ map snd ys) @ [?E ?p]"
    proof (cases "m = 0")
      case True
      have "map_of (xs @ ys) ?k = None" using sp(2,3) by (simp add: map_add_def)
      then have "?edges' = (xs @ ys) @ [(?k, ?E ?p)]"
        unfolding e' using True sp by (simp add: delete_middle update_absent del: append_assoc)
      then show ?thesis by (simp add: getAllEdges_def)
    next
      case False
      then have "?edges' = xs @ (?k, ?E ?p) # ys"
        unfolding e' using sp by (simp add: update_update_same update_middle)
      then show ?thesis by (simp add: getAllEdges_def)
    qed
    moreover have "getAllEdges edges = map snd xs @ e0 # map snd ys"
      using sp(1) by (simp add: getAllEdges_def)
    ultimately have "checkWinCondition houses (getAllEdges ?edges')
                   = checkWinCondition houses (getAllEdges edges)"
      using summary_replace[OF same, of "map snd xs" "map snd ys"]
      by (auto intro!: checkWinCondition_cong simp only:)
    with has show ?thesis by blast
  qed
qed

theorem undo_roundtrip_witness:
  "edgesInv squareMap
   \<and> list_all (\<lambda>(k, e). plainId (nodeA e) \<and> plainId (nodeB e)) squareMap
   \<and> plainId (nodeId (dataModel (mkHouse 1 ''n_1'' 3 1 2)))
   \<and> plainId (nodeId (dataModel (mkHouse 0 ''n_0'' 1 1 2)))
   \<and> hasConnection squareMap ''n_1'' ''n_0'' = 1
   \<and> snd (checkWinCondition squareScene (getAllEdges squareMap))
   \<and> \<not> snd (checkWinCondition squareScene (getAllEdges
          (setConnection (mkHouse 1 ''n_1'' 3 1 2) (mkHouse 0 ''n_0'' 1 1 2) 0 squareMap)))
   \<and> snd (checkWinCondition squareScene (getAllEdges
          (setConnection (mkHouse 1 ''n_1'' 3 1 2) (mkHouse 0 ''n_0'' 1 1 2) 1
            (setConnection (mkHouse 1 ''n_1'' 3 1 2) (mkHouse 0 ''n_0'' 1 1 2) 0 squareMap))))"
proof -
  have pre: "edgesInv squareMap
     \<and> list_all (\<lambda>(k, e). plainId (nodeA e) \<and> plainId (nodeB e)) squareMap
     \<and> plainId (nodeId (dataModel (mkHouse 1 ''n_1'' 3 1 2)))
     \<and> plainId (nodeId (dataModel (mkHouse 0 ''n_0'' 1 1 2)))"
    by (simp add: squareMap_def squareLoop_def edgesInv_def plainId_def mkHouse_def getEdgeKey_def)
  have p: "hasConnection squareMap ''n_1'' ''n_0'' = 1"
    by (simp add: squareMap_def squareLoop_def hasConnection_def getEdgeKey_def)
  have all: "getAllEdges squareMap = squareLoop"
    by (simp add: squareMap_def getAllEdges_def comp_def)
  have solved: "snd (checkWinCondition squareScene squareLoop)"
    by (simp add: checkWinCondition_def squareScene_def squareLoop_def mkHouse_def sumUp_def
          updateConnectionCount_def addAdjacency_def pushAdj_def neighbors_def)
  have unsolved: "\<not> snd (checkWinCondition squareScene (getAllEdges
          (setConnection (mkHouse 1 ''n_1'' 3 1 2) (mkHouse 0 ''n_0'' 1 1 2) 0 squareMap)))"
    by (simp add: checkWinCondition_def squareScene_def squareLoop_def squareMap_def mkHouse_def
          sumUp_def updateConnectionCount_def setConnection_def getEdgeKey_def getAllEdges_def)
  from pre p all solved unsolved
       undo_roundtrip[where edges = squareMap and a = "mkHouse 1 ''n_1'' 3 1 2"
          and b = "mkHouse 0 ''n_0'' 1 1 2" and houses = squareScene and m = 0]
  show ?thesis by (simp add: mkHouse_def)
qed


section \<open>Properties of the generator\<close>

subsection \<open>The crossing test of the spanning tree\<close>

lemma linesCross_shared_endpoint:
  assumes "(x b1 = x a1 \<and> y b1 = y a1) \<or> (x b1 = x a2 \<and> y b1 = y a2) \<or>
           (x b2 = x a1 \<and> y b2 = y a1) \<or> (x b2 = x a2 \<and> y b2 = y a2)"
  shows "\<not> linesCross a1 a2 b1 b2"
  using assms unfolding linesCross_def Let_def by (auto simp: min_def max_def)

lemma findNode_member:
  "distinct (map nodeId ns) \<Longrightarrow> n \<in> set ns \<Longrightarrow> findNode ns (nodeId n) = Some n"
proof (induction ns)
  case Nil
  then show ?case by simp
next
  case (Cons m ns)
  show ?case
  proof (cases "n = m")
    case True
    then show ?thesis by (simp add: findNode_def)
  next
    case False
    with Cons.prems have n: "n \<in> set ns" by simp
    then have "nodeId n \<in> set (map nodeId ns)" by simp
    with Cons.prems have "nodeId m \<noteq> nodeId n" by auto
    with Cons n show ?thesis by (simp add: findNode_def)
  qed
qed

lemma isCrossing_iff:
  assumes "list_all (edgeResolved ns) es"
  shows "isCrossing ns es n1 n2 = Inr (\<exists>e\<in>set es. edgeLinesCross ns n1 n2 e)"
  using assms
proof (induction es)
  case Nil
  show ?case by simp
next
  case (Cons e es)
  then obtain eU eV where "findNode ns (nodeA e) = Some eU" "findNode ns (nodeB e) = Some eV"
    by (auto simp: edgeResolved_def)
  with Cons show ?case by (simp add: edgeLinesCross_def)
qed

lemma edgeLinesCross_shared:
  assumes d: "distinct (map nodeId ns)" and n1: "n1 \<in> set ns" and n2: "n2 \<in> set ns"
    and sh: "nodeA e = nodeId n1 \<or> nodeA e = nodeId n2 \<or> nodeB e = nodeId n1 \<or> nodeB e = nodeId n2"
  shows "\<not> edgeLinesCross ns n1 n2 e"
proof (cases "findNode ns (nodeA e)")
  case None
  then show ?thesis by (simp add: edgeLinesCross_def)
next
  case (Some eU)
  show ?thesis
  proof (cases "findNode ns (nodeB e)")
    case None
    with Some show ?thesis by (simp add: edgeLinesCross_def)
  next
    case (Some eV)
    note f1 = findNode_member[OF d n1] and f2 = findNode_member[OF d n2]
    from sh f1 f2 \<open>findNode ns (nodeA e) = Some eU\<close> Some
    have "eU = n1 \<or> eU = n2 \<or> eV = n1 \<or> eV = n2" by auto
    then have "\<not> linesCross n1 n2 eU eV"
      by (intro linesCross_shared_endpoint) auto
    with \<open>findNode ns (nodeA e) = Some eU\<close> Some show ?thesis
      by (simp add: edgeLinesCross_def)
  qed
qed

text \<open>
  \<open>isCrossing\<close> has no test of the endpoints, but \<open>linesCross\<close> is false for an accepted edge
  that shares an endpoint with the candidate: only edges with disjoint endpoints count.
\<close>

lemma isCrossing_disjoint:
  assumes "distinct (map nodeId ns)" "n1 \<in> set ns" "n2 \<in> set ns"
    and "list_all (edgeResolved ns) es"
  shows "isCrossing ns es n1 n2 =
           Inr (\<exists>e\<in>set es. nodeA e \<noteq> nodeId n1 \<and> nodeA e \<noteq> nodeId n2 \<and>
                            nodeB e \<noteq> nodeId n1 \<and> nodeB e \<noteq> nodeId n2 \<and>
                            edgeLinesCross ns n1 n2 e)
       \<and> (\<forall>e. nodeA e = nodeId n1 \<or> nodeA e = nodeId n2 \<or>
               nodeB e = nodeId n1 \<or> nodeB e = nodeId n2 \<longrightarrow> \<not> edgeLinesCross ns n1 n2 e)"
proof -
  have ex: "\<forall>e. nodeA e = nodeId n1 \<or> nodeA e = nodeId n2 \<or>
               nodeB e = nodeId n1 \<or> nodeB e = nodeId n2 \<longrightarrow> \<not> edgeLinesCross ns n1 n2 e"
    using edgeLinesCross_shared[OF assms(1-3)] by blast
  then have "(\<exists>e\<in>set es. edgeLinesCross ns n1 n2 e) =
        (\<exists>e\<in>set es. nodeA e \<noteq> nodeId n1 \<and> nodeA e \<noteq> nodeId n2 \<and>
                            nodeB e \<noteq> nodeId n1 \<and> nodeB e \<noteq> nodeId n2 \<and>
                            edgeLinesCross ns n1 n2 e)"
    by blast
  with isCrossing_iff[OF assms(4), of n1 n2] ex show ?thesis by simp
qed

subsection \<open>The ids of the placed nodes are distinct\<close>

lemma digitVal_digitChar: "d < 10 \<Longrightarrow> digitVal (digitChar d) = d"
proof -
  assume "d < 10"
  then have "d \<in> {0, 1, 2, 3, 4, 5, 6, 7, 8, 9}" by auto
  then show ?thesis by (auto simp: digitVal_def digitChar_def)
qed

lemma numberOf_digits: "numberOf (digits n) = n"
proof (induction n rule: digits.induct)
  case (1 n)
  show ?case
  proof (cases "n < 10")
    case True
    then show ?thesis
      by (subst digits.simps) (simp add: numberOf_def digitVal_digitChar)
  next
    case False
    with 1 have "numberOf (digits (n div 10)) = n div 10" by simp
    moreover have "digits n = digits (n div 10) @ [digitChar (n mod 10)]"
      using False by (subst digits.simps) simp
    ultimately show ?thesis
      by (simp add: numberOf_def digitVal_digitChar)
  qed
qed

lemma digits_inj: "digits m = digits n \<Longrightarrow> m = n"
  by (metis numberOf_digits)

lemma idOf_inj: "idOf i = idOf j \<Longrightarrow> i = j"
  by (simp add: idOf_def digits_inj)

lemma placeLoop_ids:
  "placeLoop rt grid i placed k st = st' \<Longrightarrow>
   fst st' = fst st \<or> (\<exists>n. fst st' = fst st @ [n] \<and> nodeId n = idOf i)"
proof (induction rt grid i placed k st arbitrary: st' rule: placeLoop.induct)
  case (1 rt grid i placed placeAttempts ns occupied pos)
  show ?case
  proof (cases "\<not> placed \<and> placeAttempts < 50")
    case False
    with "1.prems" show ?thesis by (subst (asm) placeLoop.simps) auto
  next
    case True
    let ?px = "\<lfloor>mathRandom rt pos * of_int grid\<rfloor>"
    let ?py = "\<lfloor>mathRandom rt (pos + 1) * of_int grid\<rfloor>"
    let ?key = "showInt ?px @ '','' @ showInt ?py"
    let ?n = "\<lparr>nodeId = ''n_'' @ digits i, x = ?px, y = ?py,
               requiredConnections = 0, currentConnections = 0\<rparr>"
    show ?thesis
    proof (cases "?key \<notin> set occupied")
      case free: True
      have eq: "placeLoop rt grid i True (placeAttempts + 1)
                  (ns @ [?n], occupied @ [?key], pos + 2) = st'"
        using "1.prems" True free by (subst (asm) placeLoop.simps) (simp add: Let_def)
      have "st' = (ns @ [?n], occupied @ [?key], pos + 2)"
        using eq by (subst (asm) placeLoop.simps) simp
      then show ?thesis by (simp add: idOf_def)
    next
      case taken: False
      have eq: "placeLoop rt grid i placed (placeAttempts + 1) (ns, occupied, pos + 2) = st'"
        using "1.prems" True taken by (subst (asm) placeLoop.simps) (simp add: Let_def)
      from "1.IH"(2)[OF True refl refl refl _ eq] taken show ?thesis by simp
    qed
  qed
qed

lemma placeLoop_idsBelow:
  assumes "idsBelow i (fst st)"
  shows "idsBelow (Suc i) (fst (placeLoop rt grid i placed k st))"
proof -
  from placeLoop_ids[OF refl, of rt grid i placed k st]
  consider "fst (placeLoop rt grid i placed k st) = fst st"
    | n where "fst (placeLoop rt grid i placed k st) = fst st @ [n]" "nodeId n = idOf i"
    by blast
  then show ?thesis
  proof cases
    case 1
    with assms show ?thesis by (auto simp: idsBelow_def less_Suc_eq)
  next
    case 2
    have "idOf i \<notin> set (map nodeId (fst st))"
    proof
      assume "idOf i \<in> set (map nodeId (fst st))"
      then obtain m where "m \<in> set (fst st)" "nodeId m = idOf i" by auto
      with assms obtain j where "j < i" "idOf i = idOf j" by (auto simp: idsBelow_def)
      then show False using idOf_inj by blast
    qed
    with 2 assms show ?thesis by (auto simp: idsBelow_def less_Suc_eq)
  qed
qed

lemma placeNodes_idsBelow_upt:
  "idsBelow a (fst st) \<Longrightarrow>
   idsBelow (a + k) (fst (fold (\<lambda>i st. placeLoop rt grid i False 0 st) [a..<a + k] st))"
proof (induction k)
  case 0
  then show ?case by simp
next
  case (Suc k)
  have "[a..<a + Suc k] = [a..<a + k] @ [a + k]" by simp
  with Suc placeLoop_idsBelow[of "a + k" _ rt grid False 0] show ?case
    by (simp del: upt_Suc)
qed

lemma placeNodes_distinct:
  "distinct (map nodeId (fst (placeNodes rt grid numNodes ([], [], pos))))"
proof -
  have "idsBelow 0 (fst (([], [], pos) :: placement))" by (simp add: idsBelow_def)
  from placeNodes_idsBelow_upt[OF this, of "nat numNodes" rt grid]
  show ?thesis by (simp add: placeNodes_def idsBelow_def)
qed

subsection \<open>Candidates and accepted edges\<close>

lemma potentialEdgesOf_candidate: "p \<in> set (potentialEdgesOf ns) \<Longrightarrow> candidateOf ns p"
  unfolding potentialEdgesOf_def candidateOf_def Let_def
  by (fastforce split: if_splits simp: Suc_le_eq)

lemma candidateOf_distinct:
  assumes "distinct (map nodeId ns)" "candidateOf ns p"
  shows "nodeId (u p) \<noteq> nodeId (v p)" "u p \<in> set ns" "v p \<in> set ns"
proof -
  from assms(2) obtain i j where ij: "i < j" "j < length ns" "u p = ns ! i" "v p = ns ! j"
    by (auto simp: candidateOf_def)
  then show "u p \<in> set ns" "v p \<in> set ns" by auto
  from ij have len: "i < length (map nodeId ns)" "j < length (map nodeId ns)" "i \<noteq> j"
    by simp_all
  from nth_eq_iff_index_eq[OF assms(1) len(1,2)] len(3)
  have "map nodeId ns ! i \<noteq> map nodeId ns ! j" by blast
  with ij show "nodeId (u p) \<noteq> nodeId (v p)" by simp
qed

lemma set_permuteBy: "set (permuteBy c xs) = set xs"
proof (induction c xs rule: permuteBy.induct)
  case (1 c xs)
  show ?case
  proof (cases "xs = []")
    case True
    then show ?thesis by (subst permuteBy.simps) simp
  next
    case False
    let ?i = "c (length xs) mod length xs"
    from False have i: "?i < length xs" by simp
    have "set (permuteBy c (take ?i xs @ drop (Suc ?i) xs)) = set (take ?i xs @ drop (Suc ?i) xs)"
      using "1.IH"[OF False refl] .
    moreover have "xs = take ?i xs @ xs ! ?i # drop (Suc ?i) xs"
      using i by (rule id_take_nth_drop)
    then have "set xs = insert (xs ! ?i) (set (take ?i xs @ drop (Suc ?i) xs))"
      by (metis Un_insert_right list.simps(15) set_append)
    moreover have "permuteBy c xs = xs ! ?i # permuteBy c (take ?i xs @ drop (Suc ?i) xs)"
      using False by (subst permuteBy.simps) (simp add: Let_def)
    ultimately show ?thesis by simp
  qed
qed

lemma spanStep_edges:
  assumes "spanStep rt ns idx p (es, ds, pos) = Inr (es', ds', pos')"
  shows "es' = es \<or> (\<exists>c. es' = es @ [\<lparr>nodeA = nodeId (u p), nodeB = nodeId (v p), count = c\<rparr>])"
  using assms unfolding spanStep_def
  by (simp split: option.splits sum.splits prod.splits if_splits) blast+

lemma spanLoop_edges:
  assumes "spanLoop rt ns idx ps st = Inr st'"
    and "\<forall>e\<in>set (fst st). fromCandidates cands e" "set ps \<subseteq> set cands"
  shows "\<forall>e\<in>set (fst st'). fromCandidates cands e"
  using assms
proof (induction ps arbitrary: st)
  case Nil
  then show ?case by simp
next
  case (Cons p ps)
  from Cons.prems(1) obtain st1 where s1: "spanStep rt ns idx p st = Inr st1"
    and rest: "spanLoop rt ns idx ps st1 = Inr st'"
    by (auto split: sum.splits)
  obtain es ds pos where st: "st = (es, ds, pos)" by (cases st) auto
  obtain es1 ds1 pos1 where st1: "st1 = (es1, ds1, pos1)" by (cases st1) auto
  from spanStep_edges[OF s1[unfolded st st1]] Cons.prems(2,3) st
  have "\<forall>e\<in>set es1. fromCandidates cands e"
    by (fastforce simp: fromCandidates_def)
  with Cons.IH[OF rest] st1 Cons.prems(3) show ?case by simp
qed

lemma extraLoop_edges:
  assumes "extraLoop rt ns target ps st = Inr st'"
    and "\<forall>e\<in>set (fst st). fromCandidates cands e" "set ps \<subseteq> set cands"
  shows "\<forall>e\<in>set (fst st'). fromCandidates cands e"
  using assms
proof (induction ps arbitrary: st)
  case Nil
  then show ?case by simp
next
  case (Cons p ps)
  obtain es added pos where st: "st = (es, added, pos)" by (cases st) auto
  let ?new = "(es @ [\<lparr>nodeA = nodeId (u p), nodeB = nodeId (v p),
                      count = (if mathRandom rt pos > 6 / 10 then 2 else 1)\<rparr>],
               added + 1, pos + 1)"
  let ?dup = "list_ex (\<lambda>e. (nodeA e = nodeId (u p) \<and> nodeB e = nodeId (v p)) \<or>
                              (nodeA e = nodeId (v p) \<and> nodeB e = nodeId (u p))) es"
  have step: "extraLoop rt ns target (p # ps) st =
      (if added \<ge> target then Inr st
       else if ?dup then extraLoop rt ns target ps st
       else (case isCrossing ns es (u p) (v p) of
               Inl e \<Rightarrow> Inl e
             | Inr crossing \<Rightarrow>
                 if \<not> crossing then extraLoop rt ns target ps ?new
                 else extraLoop rt ns target ps st))"
    unfolding st by simp
  have "st' = st \<or> extraLoop rt ns target ps st = Inr st' \<or> extraLoop rt ns target ps ?new = Inr st'"
  proof (cases "added \<ge> target")
    case True
    with Cons.prems(1) step show ?thesis by simp
  next
    case nt: False
    show ?thesis
    proof (cases ?dup)
      case True
      with nt Cons.prems(1) step show ?thesis by simp
    next
      case nd: False
      show ?thesis
      proof (cases "isCrossing ns es (u p) (v p)")
        case (Inl e)
        with nt nd Cons.prems(1) step show ?thesis by simp
      next
        case (Inr crossing)
        with nt nd Cons.prems(1) step show ?thesis by (cases crossing) simp_all
      qed
    qed
  qed
  then consider "st' = st" | "extraLoop rt ns target ps st = Inr st'"
    | "extraLoop rt ns target ps ?new = Inr st'"
    by blast
  then show ?case
  proof cases
    case 1
    with Cons.prems(2) show ?thesis by simp
  next
    case 2
    from Cons.IH[OF 2] Cons.prems(2,3) show ?thesis by simp
  next
    case 3
    have "\<forall>e\<in>set (fst ?new). fromCandidates cands e"
      using Cons.prems(2,3) st by (fastforce simp: fromCandidates_def)
    from Cons.IH[OF 3 this] Cons.prems(3) show ?thesis by simp
  qed
qed

subsection \<open>What the spanning-tree step rejects\<close>

lemma linesCross_spec:
  "x a1 = x a2 \<or> y a1 = y a2 \<Longrightarrow> x b1 = x b2 \<or> y b1 = y b2 \<Longrightarrow>
   linesCross a1 a2 b1 b2 = segmentsCross_spec a1 a2 b1 b2"
  unfolding linesCross_def segmentsCross_spec_def strictlyInside_def Let_def
  by (auto simp: min_def max_def)

lemma potentialEdgesOf_aligned:
  "p \<in> set (potentialEdgesOf ns) \<Longrightarrow> x (u p) = x (v p) \<or> y (u p) = y (v p)"
  unfolding potentialEdgesOf_def Let_def
  by (fastforce split: if_splits)

lemma fromCandidates_resolved:
  assumes d: "distinct (map nodeId ns)" and f: "fromCandidates (potentialEdgesOf ns) e"
  shows "\<exists>q\<in>set (potentialEdgesOf ns).
           findNode ns (nodeA e) = Some (u q) \<and> findNode ns (nodeB e) = Some (v q)"
proof -
  from f obtain q where q: "q \<in> set (potentialEdgesOf ns)"
    "nodeA e = nodeId (u q)" "nodeB e = nodeId (v q)"
    by (auto simp: fromCandidates_def)
  from potentialEdgesOf_candidate[OF q(1)] have c: "candidateOf ns q" .
  from findNode_member[OF d candidateOf_distinct(2)[OF d c]]
       findNode_member[OF d candidateOf_distinct(3)[OF d c]] q
  show ?thesis by auto
qed

lemma edgeLinesCross_spec:
  assumes d: "distinct (map nodeId ns)" and f: "fromCandidates (potentialEdgesOf ns) e"
    and al: "x n1 = x n2 \<or> y n1 = y n2"
  shows "edgeLinesCross ns n1 n2 e = acceptedCrosses_spec ns n1 n2 e"
proof -
  from fromCandidates_resolved[OF d f] obtain q where q: "q \<in> set (potentialEdgesOf ns)"
    "findNode ns (nodeA e) = Some (u q)" "findNode ns (nodeB e) = Some (v q)"
    by blast
  from linesCross_spec[OF al potentialEdgesOf_aligned[OF q(1)]] q(2,3)
  show ?thesis by (simp add: edgeLinesCross_def acceptedCrosses_spec_def)
qed

text \<open>
  Claim C5. In the spanning-tree step, take a candidate of \<open>potentialEdgesOf\<close> whose two
  endpoints have different roots in the disjoint sets, the accepted edges being candidates
  too. The step rejects it (the edges are left as they are) exactly when the candidate
  crosses, in the sense of the specification's \<open>segmentsCross\<close>, an accepted edge neither of
  whose endpoints is an endpoint of the candidate; otherwise the step unites the two sets and
  appends the candidate to the accepted edges. An accepted edge that shares an endpoint with
  the candidate has no part in the decision. The placed nodes have distinct ids
  (\<open>placeNodes_distinct\<close>) and the edges accepted by the loop are candidates
  (\<open>spanLoop_edges\<close>), so every step of an attempt is of this kind.
\<close>

theorem spanStep_crossing_disjoint_only:
  assumes d: "distinct (map nodeId ns)"
    and p: "p \<in> set (potentialEdgesOf ns)"
    and acc: "list_all (fromCandidates (potentialEdgesOf ns)) es"
    and iu: "map_of idx (nodeId (u p)) = Some uIdx"
    and iv: "map_of idx (nodeId (v p)) = Some vIdx"
    and fu: "ds_find (stackLimit rt) (parent ds) uIdx = Inr (rootU, par1)"
    and fv: "ds_find (stackLimit rt) par1 vIdx = Inr (rootV, par2)"
    and diff: "rootU \<noteq> rootV"
  shows "spanStep rt ns idx p (es, ds, pos) =
     (if \<exists>e\<in>set es. nodeA e \<noteq> nodeId (u p) \<and> nodeA e \<noteq> nodeId (v p) \<and>
                      nodeB e \<noteq> nodeId (u p) \<and> nodeB e \<noteq> nodeId (v p) \<and>
                      acceptedCrosses_spec ns (u p) (v p) e
      then Inr (es, ds\<lparr>parent := par2\<rparr>, pos)
      else (case ds_union (stackLimit rt) (ds\<lparr>parent := par2\<rparr>) uIdx vIdx of
              Inl err \<Rightarrow> Inl err
            | Inr ds' \<Rightarrow>
               Inr (es @ [\<lparr>nodeA = nodeId (u p), nodeB = nodeId (v p),
                            count = (if mathRandom rt pos > 7 / 10 then 2 else 1)\<rparr>],
                    ds', pos + 1)))"
proof -
  from potentialEdgesOf_candidate[OF p] have c: "candidateOf ns p" .
  note mu = candidateOf_distinct(2)[OF d c] and mv = candidateOf_distinct(3)[OF d c]
  note al = potentialEdgesOf_aligned[OF p]
  have res: "list_all (edgeResolved ns) es"
    unfolding list_all_iff
  proof
    fix e assume "e \<in> set es"
    with acc have "fromCandidates (potentialEdgesOf ns) e" by (simp add: list_all_iff)
    from fromCandidates_resolved[OF d this] show "edgeResolved ns e"
      by (auto simp: edgeResolved_def)
  qed
  have same: "edgeLinesCross ns (u p) (v p) e = acceptedCrosses_spec ns (u p) (v p) e"
    if "e \<in> set es" for e
  proof -
    from that acc have "fromCandidates (potentialEdgesOf ns) e" by (simp add: list_all_iff)
    from edgeLinesCross_spec[OF d this al] show ?thesis .
  qed
  define crossed where "crossed = (\<exists>e\<in>set es. nodeA e \<noteq> nodeId (u p) \<and> nodeA e \<noteq> nodeId (v p) \<and>
                      nodeB e \<noteq> nodeId (u p) \<and> nodeB e \<noteq> nodeId (v p) \<and>
                      acceptedCrosses_spec ns (u p) (v p) e)"
  have "isCrossing ns es (u p) (v p) =
          Inr (\<exists>e\<in>set es. nodeA e \<noteq> nodeId (u p) \<and> nodeA e \<noteq> nodeId (v p) \<and>
                      nodeB e \<noteq> nodeId (u p) \<and> nodeB e \<noteq> nodeId (v p) \<and>
                      edgeLinesCross ns (u p) (v p) e)"
    using isCrossing_disjoint[OF d mu mv res] by blast
  also have "\<dots> = Inr crossed" unfolding crossed_def using same by auto
  finally have cr: "isCrossing ns es (u p) (v p) = Inr crossed" .
  show ?thesis
    unfolding spanStep_def prod.case iu iv fu fv option.case sum.case cr crossed_def[symmetric]
    using diff by (cases crossed) simp_all
qed

theorem spanStep_crossing_disjoint_only_witness:
  "distinct (map nodeId spanNodes)
   \<and> potentialEdgesOf spanNodes =
        [\<lparr>u = spanNodes ! 0, v = spanNodes ! 1, dist = 2\<rparr>,
         \<lparr>u = spanNodes ! 0, v = spanNodes ! 4, dist = 2\<rparr>,
         \<lparr>u = spanNodes ! 2, v = spanNodes ! 3, dist = 2\<rparr>]
   \<and> spanStep zeroRuntime spanNodes (nodeIndexMapOf spanNodes)
        \<lparr>u = spanNodes ! 0, v = spanNodes ! 1, dist = 2\<rparr> ([], newDisjointSet 5, 0)
        = Inr (spanAccepted, spanSets, 1)
   \<and> list_all (fromCandidates (potentialEdgesOf spanNodes)) spanAccepted
   \<and> ds_find (stackLimit zeroRuntime) (parent spanSets) 2 = Inr (2, [1, 1, 2, 3, 4])
   \<and> ds_find (stackLimit zeroRuntime) [1, 1, 2, 3, 4] 3 = Inr (3, [1, 1, 2, 3, 4])
   \<and> acceptedCrosses_spec spanNodes (spanNodes ! 2) (spanNodes ! 3) (spanAccepted ! 0)
   \<and> spanStep zeroRuntime spanNodes (nodeIndexMapOf spanNodes)
        \<lparr>u = spanNodes ! 2, v = spanNodes ! 3, dist = 2\<rparr> (spanAccepted, spanSets, 1)
        = Inr (spanAccepted, spanSets, 1)
   \<and> ds_find (stackLimit zeroRuntime) (parent spanSets) 0 = Inr (1, [1, 1, 2, 3, 4])
   \<and> ds_find (stackLimit zeroRuntime) [1, 1, 2, 3, 4] 4 = Inr (4, [1, 1, 2, 3, 4])
   \<and> nodeA (spanAccepted ! 0) = nodeId (spanNodes ! 0)
   \<and> spanStep zeroRuntime spanNodes (nodeIndexMapOf spanNodes)
        \<lparr>u = spanNodes ! 0, v = spanNodes ! 4, dist = 2\<rparr> (spanAccepted, spanSets, 1)
        = Inr (spanAccepted @ [\<lparr>nodeA = ''n_0'', nodeB = ''n_4'', count = 1\<rparr>],
               \<lparr>parent = [1, 4, 2, 3, 4], setCount = 3\<rparr>, 2)"
proof -
  have d: "distinct (map nodeId spanNodes)"
    by (simp add: spanNodes_def)
  have cands: "potentialEdgesOf spanNodes =
        [\<lparr>u = spanNodes ! 0, v = spanNodes ! 1, dist = 2\<rparr>,
         \<lparr>u = spanNodes ! 0, v = spanNodes ! 4, dist = 2\<rparr>,
         \<lparr>u = spanNodes ! 2, v = spanNodes ! 3, dist = 2\<rparr>]"
    by code_simp
  have first: "spanStep zeroRuntime spanNodes (nodeIndexMapOf spanNodes)
        \<lparr>u = spanNodes ! 0, v = spanNodes ! 1, dist = 2\<rparr> ([], newDisjointSet 5, 0)
        = Inr (spanAccepted, spanSets, 1)"
    by code_simp
  have acc: "list_all (fromCandidates (potentialEdgesOf spanNodes)) spanAccepted"
    unfolding cands by (simp add: fromCandidates_def spanAccepted_def spanNodes_def)
  have p23: "\<lparr>u = spanNodes ! 2, v = spanNodes ! 3, dist = 2\<rparr> \<in> set (potentialEdgesOf spanNodes)"
    and p04: "\<lparr>u = spanNodes ! 0, v = spanNodes ! 4, dist = 2\<rparr> \<in> set (potentialEdgesOf spanNodes)"
    unfolding cands by simp_all
  have i0: "map_of (nodeIndexMapOf spanNodes) (nodeId (u \<lparr>u = spanNodes ! 0, v = spanNodes ! 4, dist = 2\<rparr>)) = Some 0"
    and i4: "map_of (nodeIndexMapOf spanNodes) (nodeId (v \<lparr>u = spanNodes ! 0, v = spanNodes ! 4, dist = 2\<rparr>)) = Some 4"
    and i2: "map_of (nodeIndexMapOf spanNodes) (nodeId (u \<lparr>u = spanNodes ! 2, v = spanNodes ! 3, dist = 2\<rparr>)) = Some 2"
    and i3: "map_of (nodeIndexMapOf spanNodes) (nodeId (v \<lparr>u = spanNodes ! 2, v = spanNodes ! 3, dist = 2\<rparr>)) = Some 3"
    by code_simp+
  have f2: "ds_find (stackLimit zeroRuntime) (parent spanSets) 2 = Inr (2, [1, 1, 2, 3, 4])"
    and f3: "ds_find (stackLimit zeroRuntime) [1, 1, 2, 3, 4] 3 = Inr (3, [1, 1, 2, 3, 4])"
    and f0: "ds_find (stackLimit zeroRuntime) (parent spanSets) 0 = Inr (1, [1, 1, 2, 3, 4])"
    and f4: "ds_find (stackLimit zeroRuntime) [1, 1, 2, 3, 4] 4 = Inr (4, [1, 1, 2, 3, 4])"
    by code_simp+
  have cr: "acceptedCrosses_spec spanNodes (spanNodes ! 2) (spanNodes ! 3) (spanAccepted ! 0)"
    by code_simp
  have sh: "nodeA (spanAccepted ! 0) = nodeId (spanNodes ! 0)"
    by (simp add: spanAccepted_def spanNodes_def)
  have un: "ds_union (stackLimit zeroRuntime) (spanSets\<lparr>parent := [1, 1, 2, 3, 4]\<rparr>) 0 4
              = Inr \<lparr>parent = [1, 4, 2, 3, 4], setCount = 3\<rparr>"
    by code_simp
  have same: "spanSets\<lparr>parent := [1, 1, 2, 3, 4]\<rparr> = spanSets"
    by (simp add: spanSets_def)
  have ex: "\<exists>e\<in>set spanAccepted.
              nodeA e \<noteq> nodeId (u \<lparr>u = spanNodes ! 2, v = spanNodes ! 3, dist = 2\<rparr>) \<and>
              nodeA e \<noteq> nodeId (v \<lparr>u = spanNodes ! 2, v = spanNodes ! 3, dist = 2\<rparr>) \<and>
              nodeB e \<noteq> nodeId (u \<lparr>u = spanNodes ! 2, v = spanNodes ! 3, dist = 2\<rparr>) \<and>
              nodeB e \<noteq> nodeId (v \<lparr>u = spanNodes ! 2, v = spanNodes ! 3, dist = 2\<rparr>) \<and>
              acceptedCrosses_spec spanNodes
                (u \<lparr>u = spanNodes ! 2, v = spanNodes ! 3, dist = 2\<rparr>)
                (v \<lparr>u = spanNodes ! 2, v = spanNodes ! 3, dist = 2\<rparr>) e"
    using cr by (simp add: spanAccepted_def spanNodes_def)
  have nex: "\<not> (\<exists>e\<in>set spanAccepted.
              nodeA e \<noteq> nodeId (u \<lparr>u = spanNodes ! 0, v = spanNodes ! 4, dist = 2\<rparr>) \<and>
              nodeA e \<noteq> nodeId (v \<lparr>u = spanNodes ! 0, v = spanNodes ! 4, dist = 2\<rparr>) \<and>
              nodeB e \<noteq> nodeId (u \<lparr>u = spanNodes ! 0, v = spanNodes ! 4, dist = 2\<rparr>) \<and>
              nodeB e \<noteq> nodeId (v \<lparr>u = spanNodes ! 0, v = spanNodes ! 4, dist = 2\<rparr>) \<and>
              acceptedCrosses_spec spanNodes
                (u \<lparr>u = spanNodes ! 0, v = spanNodes ! 4, dist = 2\<rparr>)
                (v \<lparr>u = spanNodes ! 0, v = spanNodes ! 4, dist = 2\<rparr>) e)"
    by (simp add: spanAccepted_def spanNodes_def)
  have n23: "(2::nat) \<noteq> 3" and n14: "(1::nat) \<noteq> 4" by simp_all
  have rejected: "spanStep zeroRuntime spanNodes (nodeIndexMapOf spanNodes)
        \<lparr>u = spanNodes ! 2, v = spanNodes ! 3, dist = 2\<rparr> (spanAccepted, spanSets, 1)
        = Inr (spanAccepted, spanSets, 1)"
    using spanStep_crossing_disjoint_only[OF d p23 acc i2 i3 f2 f3 n23, where pos = 1]
    by (simp only: if_P[OF ex] same)
  have "spanStep zeroRuntime spanNodes (nodeIndexMapOf spanNodes)
        \<lparr>u = spanNodes ! 0, v = spanNodes ! 4, dist = 2\<rparr> (spanAccepted, spanSets, 1)
        = Inr (spanAccepted @
                 [\<lparr>nodeA = nodeId (u \<lparr>u = spanNodes ! 0, v = spanNodes ! 4, dist = 2\<rparr>),
                   nodeB = nodeId (v \<lparr>u = spanNodes ! 0, v = spanNodes ! 4, dist = 2\<rparr>),
                   count = (if mathRandom zeroRuntime 1 > 7 / 10 then 2 else 1)\<rparr>],
               \<lparr>parent = [1, 4, 2, 3, 4], setCount = 3\<rparr>, 1 + 1)"
    using spanStep_crossing_disjoint_only[OF d p04 acc i0 i4 f0 f4 n14, where pos = 1]
    by (simp only: if_not_P[OF nex] un sum.case)
  then have accepted: "spanStep zeroRuntime spanNodes (nodeIndexMapOf spanNodes)
        \<lparr>u = spanNodes ! 0, v = spanNodes ! 4, dist = 2\<rparr> (spanAccepted, spanSets, 1)
        = Inr (spanAccepted @ [\<lparr>nodeA = ''n_0'', nodeB = ''n_4'', count = 1\<rparr>],
               \<lparr>parent = [1, 4, 2, 3, 4], setCount = 3\<rparr>, 2)"
    by (simp add: spanNodes_def zeroRuntime_def)
  from d cands first acc f2 f3 cr rejected f0 f4 sh accepted show ?thesis by blast
qed

subsection \<open>Pruning keeps every requirement within the maximum\<close>

lemma addRequired_set:
  "findNode ns i = Some n \<Longrightarrow>
   set (addRequired i c ns) \<subseteq>
     insert (n\<lparr>requiredConnections := requiredConnections n + c\<rparr>) (set ns)"
  by (induction ns) (auto simp: findNode_def split: if_splits)

lemma findNode_addRequired_other:
  "j \<noteq> i \<Longrightarrow> findNode (addRequired i c ns) j = findNode ns j"
  by (induction ns) (auto simp: findNode_def)

lemma pruneStep_bound:
  assumes b: "boundedBy m ns" and ne: "nodeA e \<noteq> nodeB e"
    and st: "pruneStep m e (ns, valid) = Inr (ns', valid')"
  shows "boundedBy m ns'"
proof (cases "ns' = ns")
  case True
  with b show ?thesis by simp
next
  case False
  with st obtain nA nB where
    fA: "findNode ns (nodeA e) = Some nA" and okA: "requiredConnections nA + count e \<le> m"
    and fB: "findNode ns (nodeB e) = Some nB" and okB: "requiredConnections nB + count e \<le> m"
    and res: "ns' = addRequired (nodeB e) (count e) (addRequired (nodeA e) (count e) ns)"
    unfolding pruneStep_def by (auto split: option.splits if_splits)
  let ?ns1 = "addRequired (nodeA e) (count e) ns"
  have b1: "boundedBy m ?ns1"
    using addRequired_set[OF fA, of "count e"] okA b unfolding boundedBy_def by auto
  have "findNode ?ns1 (nodeB e) = Some nB"
    using fB ne by (simp add: findNode_addRequired_other)
  from addRequired_set[OF this, of "count e"] okB b1 show ?thesis
    unfolding res boundedBy_def by auto
qed

lemma pruneLoop_bound:
  assumes "pruneLoop m es st = Inr st'" "boundedBy m (fst st)" "\<forall>e\<in>set es. nodeA e \<noteq> nodeB e"
  shows "boundedBy m (fst st')"
  using assms
proof (induction es arbitrary: st)
  case Nil
  then show ?case by simp
next
  case (Cons e es)
  from Cons.prems(1) obtain st1 where s1: "pruneStep m e st = Inr st1"
    and rest: "pruneLoop m es st1 = Inr st'"
    by (auto split: sum.splits)
  have "boundedBy m (fst st1)"
    using pruneStep_bound[of m "fst st" e "snd st" "fst st1" "snd st1"] s1 Cons.prems(2,3)
    by simp
  from Cons.IH[OF rest this] Cons.prems(3) show ?case by simp
qed

subsection \<open>The result of an attempt\<close>

lemma tryGenerate_bounds:
  assumes "tryGenerate rt grid nodeRange maxConn = Inr p"
  shows "\<forall>n\<in>set (nodes p). 1 \<le> requiredConnections n \<and> requiredConnections n \<le> maxConn"
proof -
  let ?numNodes = "\<lfloor>mathRandom rt 0 * of_int (snd nodeRange - fst nodeRange + 1)\<rfloor> + fst nodeRange"
  obtain placed occupied pos1 where pl:
    "placeNodes rt grid ?numNodes ([], [], 1) = (placed, occupied, pos1)"
    by (cases "placeNodes rt grid ?numNodes ([], [], 1)") auto
  have dist: "distinct (map nodeId placed)"
    using placeNodes_distinct[of rt grid ?numNodes 1] pl by simp
  let ?cands = "permuteBy (sortOrder rt) (potentialEdgesOf placed)"
  from assms pl obtain treeEdges ds pos2 where
    span: "spanLoop rt placed (nodeIndexMapOf placed) ?cands
             ([], newDisjointSet (length placed), pos1) = Inr (treeEdges, ds, pos2)"
    unfolding tryGenerate_def Let_def
    by (auto split: if_splits sum.splits prod.splits)
  from assms pl span obtain allEdges added pos3 where
    extra: "extraLoop rt placed \<lfloor>of_nat (length treeEdges) * (3 / 10 :: real)\<rfloor> ?cands
              (treeEdges, 0, pos2) = Inr (allEdges, added, pos3)"
    unfolding tryGenerate_def Let_def
    by (auto split: if_splits sum.splits prod.splits)
  from assms pl span extra obtain validEdges where
    prune: "pruneLoop maxConn allEdges
              (map (\<lambda>n. n\<lparr>requiredConnections := 0\<rparr>) placed, []) = Inr (nodes p, validEdges)"
    and nz: "\<not> list_ex (\<lambda>n. requiredConnections n = 0) (nodes p)"
    unfolding tryGenerate_def Let_def
    by (auto split: if_splits sum.splits prod.splits)
  have "\<forall>e\<in>set treeEdges. fromCandidates ?cands e"
    using spanLoop_edges[OF span, of ?cands] by simp
  then have "\<forall>e\<in>set allEdges. fromCandidates ?cands e"
    using extraLoop_edges[OF extra, of ?cands] by simp
  then have noloop: "\<forall>e\<in>set allEdges. nodeA e \<noteq> nodeB e"
    using candidateOf_distinct(1)[OF dist] potentialEdgesOf_candidate[of _ placed]
    by (auto simp: fromCandidates_def set_permuteBy)
  have "boundedBy maxConn (fst (map (\<lambda>n. n\<lparr>requiredConnections := 0\<rparr>) placed, [] :: EdgeData list))"
    by (simp add: boundedBy_def)
  from pruneLoop_bound[OF prune this noloop] have "boundedBy maxConn (nodes p)" by simp
  with nz show ?thesis
    by (auto simp: boundedBy_def list_ex_iff Suc_le_eq)
qed

subsection \<open>The retry loop\<close>

lemma generateLoop_cases:
  "generateLoop settings rts k = createFallbackPuzzle \<or>
   (\<exists>j. k \<le> j \<and> j < 100 \<and>
        tryGenerate (rts j) (gridSize settings) (nodeCount settings) (maxConnections settings)
          = Inr (generateLoop settings rts k))"
proof (induction settings rts k rule: generateLoop.induct)
  case (1 settings rts attempts)
  show ?case
  proof (cases "attempts < 100")
    case False
    then show ?thesis by (subst generateLoop.simps) simp
  next
    case True
    show ?thesis
    proof (cases "tryGenerate (rts attempts) (gridSize settings) (nodeCount settings)
                    (maxConnections settings)")
      case (Inr puzzle)
      with True have "generateLoop settings rts attempts = puzzle"
        by (subst generateLoop.simps) simp
      with Inr True show ?thesis by auto
    next
      case (Inl e)
      with True have eq: "generateLoop settings rts attempts = generateLoop settings rts (attempts + 1)"
        by (subst generateLoop.simps) simp
      from "1.IH"[OF True Inl] show ?thesis
        unfolding eq by (auto intro: Suc_leD)
    qed
  qed
qed

lemma generateLoop_all_fail:
  "(\<And>j. k \<le> j \<Longrightarrow> j < 100 \<Longrightarrow>
        isl (tryGenerate (rts j) (gridSize settings) (nodeCount settings) (maxConnections settings)))
   \<Longrightarrow> generateLoop settings rts k = createFallbackPuzzle"
proof (induction settings rts k rule: generateLoop.induct)
  case (1 settings rts attempts)
  show ?case
  proof (cases "attempts < 100")
    case False
    then show ?thesis by (subst generateLoop.simps) simp
  next
    case True
    with "1.prems"[of attempts] obtain e where
      Inl: "tryGenerate (rts attempts) (gridSize settings) (nodeCount settings)
              (maxConnections settings) = Inl e"
      by (auto simp: isl_def)
    with True have eq: "generateLoop settings rts attempts = generateLoop settings rts (attempts + 1)"
      by (subst generateLoop.simps) simp
    have "generateLoop settings rts (attempts + 1) = createFallbackPuzzle"
      by (rule "1.IH"[OF True Inl]) (use "1.prems" in auto)
    with eq show ?thesis by simp
  qed
qed

lemma tryGenerate_zeroRuntime:
  "tryGenerate zeroRuntime 5 (6, 9) 4 = Inl (Error ''Not enough nodes placed'')"
  by code_simp

lemma tryGenerate_rowRuntime: "tryGenerate rowRuntime 5 (6, 9) 4 = Inr rowPuzzle"
  by code_simp

lemma fallback_bounds:
  "\<forall>n\<in>set (nodes createFallbackPuzzle).
     1 \<le> requiredConnections n \<and> requiredConnections n \<le> maxConnections (DIFFICULTY_SETTINGS d)"
  by (cases d) (simp_all add: createFallbackPuzzle_def)

text \<open>
  Claim C4. Every node of the puzzle that \<open>generate\<close> returns, for any tier and whatever
  the runtime does, requires at least 1 and at most the tier's \<open>maxConnections\<close>
  connections. The same holds for every successful attempt with any maximum; and pruning
  keeps an edge only when both endpoints, with the edge's count added, stay within the
  maximum.
\<close>

theorem generate_required_bounds:
  "(\<forall>n\<in>set (nodes (generate d rts)).
      1 \<le> requiredConnections n \<and>
      requiredConnections n \<le> maxConnections (DIFFICULTY_SETTINGS d))
   \<and> (\<forall>p. tryGenerate rt grid nodeRange maxConn = Inr p \<longrightarrow>
          (\<forall>n\<in>set (nodes p). 1 \<le> requiredConnections n \<and> requiredConnections n \<le> maxConn))
   \<and> (\<forall>ns' valid'. pruneStep maxConn e (ns, valid) = Inr (ns', valid') \<and> valid' \<noteq> valid \<longrightarrow>
          (\<exists>nA nB. findNode ns (nodeA e) = Some nA \<and> findNode ns (nodeB e) = Some nB \<and>
                   requiredConnections nA + count e \<le> maxConn \<and>
                   requiredConnections nB + count e \<le> maxConn))"
proof -
  let ?s = "DIFFICULTY_SETTINGS d"
  have "\<forall>n\<in>set (nodes (generate d rts)).
      1 \<le> requiredConnections n \<and> requiredConnections n \<le> maxConnections ?s"
  proof -
    from generateLoop_cases[of ?s rts 0]
    consider "generate d rts = createFallbackPuzzle"
      | j where "tryGenerate (rts j) (gridSize ?s) (nodeCount ?s) (maxConnections ?s)
                  = Inr (generate d rts)"
      unfolding generate_def by blast
    then show ?thesis
    proof cases
      case 1
      with fallback_bounds[of d] show ?thesis by simp
    next
      case 2
      then show ?thesis by (rule tryGenerate_bounds)
    qed
  qed
  moreover have "\<forall>p. tryGenerate rt grid nodeRange maxConn = Inr p \<longrightarrow>
          (\<forall>n\<in>set (nodes p). 1 \<le> requiredConnections n \<and> requiredConnections n \<le> maxConn)"
    using tryGenerate_bounds by blast
  moreover have "\<forall>ns' valid'. pruneStep maxConn e (ns, valid) = Inr (ns', valid') \<and> valid' \<noteq> valid \<longrightarrow>
          (\<exists>nA nB. findNode ns (nodeA e) = Some nA \<and> findNode ns (nodeB e) = Some nB \<and>
                   requiredConnections nA + count e \<le> maxConn \<and>
                   requiredConnections nB + count e \<le> maxConn)"
    unfolding pruneStep_def by (auto split: option.splits if_splits)
  ultimately show ?thesis by blast
qed

theorem generate_required_bounds_witness:
  "generate EASY (\<lambda>k. rowRuntime) = rowPuzzle
   \<and> tryGenerate rowRuntime 5 (6, 9) 4 = Inr rowPuzzle
   \<and> map requiredConnections (nodes (generate EASY (\<lambda>k. rowRuntime))) = [3, 3, 2, 2, 1, 1]
   \<and> nodes rowPuzzle ! 0 \<in> set (nodes (generate EASY (\<lambda>k. rowRuntime)))
   \<and> 1 \<le> requiredConnections (nodes rowPuzzle ! 0)
   \<and> requiredConnections (nodes rowPuzzle ! 0) \<le> maxConnections (DIFFICULTY_SETTINGS EASY)"
proof -
  have g: "generate EASY (\<lambda>k. rowRuntime) = rowPuzzle"
    unfolding generate_def
    by (subst generateLoop.simps) (simp add: tryGenerate_rowRuntime)
  have m: "nodes rowPuzzle ! 0 \<in> set (nodes (generate EASY (\<lambda>k. rowRuntime)))"
    unfolding g by (simp add: rowPuzzle_def)
  have r: "map requiredConnections (nodes (generate EASY (\<lambda>k. rowRuntime))) = [3, 3, 2, 2, 1, 1]"
    unfolding g by (simp add: rowPuzzle_def)
  from generate_required_bounds[of EASY "\<lambda>k. rowRuntime"] m
  have "1 \<le> requiredConnections (nodes rowPuzzle ! 0)
      \<and> requiredConnections (nodes rowPuzzle ! 0) \<le> maxConnections (DIFFICULTY_SETTINGS EASY)"
    by blast
  with g m r tryGenerate_rowRuntime show ?thesis by blast
qed

text \<open>
  Claim C1. \<open>generate\<close> returns a puzzle for every tier and every behaviour of the
  runtime: either the puzzle of a successful attempt among the 100, or the fallback
  puzzle. When the 100 attempts all fail it returns the fallback puzzle as it is: four
  nodes at (1,1), (3,1), (1,3) and (3,3), each requiring 2 connections.
\<close>

theorem generate_total:
  "(generate d rts = createFallbackPuzzle \<or>
      (\<exists>k<100. tryGenerate (rts k) (gridSize (DIFFICULTY_SETTINGS d))
                  (nodeCount (DIFFICULTY_SETTINGS d)) (maxConnections (DIFFICULTY_SETTINGS d))
                = Inr (generate d rts)))
   \<and> ((\<forall>k<100. isl (tryGenerate (rts k) (gridSize (DIFFICULTY_SETTINGS d))
                  (nodeCount (DIFFICULTY_SETTINGS d)) (maxConnections (DIFFICULTY_SETTINGS d))))
        \<longrightarrow> generate d rts = createFallbackPuzzle)
   \<and> map (\<lambda>n. (x n, y n, requiredConnections n)) (nodes createFallbackPuzzle)
        = [(1, 1, 2), (3, 1, 2), (1, 3, 2), (3, 3, 2)]"
proof -
  let ?s = "DIFFICULTY_SETTINGS d"
  have "generate d rts = createFallbackPuzzle \<or>
      (\<exists>k<100. tryGenerate (rts k) (gridSize ?s) (nodeCount ?s) (maxConnections ?s)
                = Inr (generate d rts))"
    using generateLoop_cases[of ?s rts 0] unfolding generate_def by blast
  moreover have "(\<forall>k<100. isl (tryGenerate (rts k) (gridSize ?s) (nodeCount ?s) (maxConnections ?s)))
        \<longrightarrow> generate d rts = createFallbackPuzzle"
    unfolding generate_def by (auto intro: generateLoop_all_fail)
  moreover have "map (\<lambda>n. (x n, y n, requiredConnections n)) (nodes createFallbackPuzzle)
        = [(1, 1, 2), (3, 1, 2), (1, 3, 2), (3, 3, 2)]"
    by (simp add: createFallbackPuzzle_def)
  ultimately show ?thesis by blast
qed

theorem generate_total_witness:
  "isl (tryGenerate zeroRuntime (gridSize (DIFFICULTY_SETTINGS EASY))
          (nodeCount (DIFFICULTY_SETTINGS EASY)) (maxConnections (DIFFICULTY_SETTINGS EASY)))
   \<and> generate EASY (\<lambda>k. zeroRuntime) = createFallbackPuzzle
   \<and> length (nodes (generate EASY (\<lambda>k. zeroRuntime))) = 4"
proof -
  have f: "isl (tryGenerate zeroRuntime (gridSize (DIFFICULTY_SETTINGS EASY))
          (nodeCount (DIFFICULTY_SETTINGS EASY)) (maxConnections (DIFFICULTY_SETTINGS EASY)))"
    by (simp add: tryGenerate_zeroRuntime)
  with generate_total[of EASY "\<lambda>k. zeroRuntime"]
  have g: "generate EASY (\<lambda>k. zeroRuntime) = createFallbackPuzzle" by blast
  then have "length (nodes (generate EASY (\<lambda>k. zeroRuntime))) = 4"
    by (simp add: createFallbackPuzzle_def)
  with f g show ?thesis by blast
qed


section \<open>The attempts stay within the model\<close>

text \<open>
  The model stops with a \<open>TypeError\<close> where JavaScript would read \<open>undefined\<close>, and
  with a \<open>RangeError\<close> where \<open>find\<close> runs out of stack. This section shows that an
  attempt never does the first, and does the second only when the stack has room for
  fewer calls than there are candidate edges.
\<close>

subsection \<open>DisjointSet\<close>

lemma ranked_mono: "ranked rk b par \<Longrightarrow> b \<le> b' \<Longrightarrow> ranked rk b' par"
  unfolding ranked_def by (meson le_trans)

lemma ds_find_ranked:
  assumes "ranked rk bound par" "i < length par"
  shows "(ds_find d par i = Inl RangeError \<and> d \<le> bound - rk i)
       \<or> (\<exists>res. ds_find d par i = Inr res \<and> foundRoot rk bound par i res)"
  using assms(2)
proof (induction d arbitrary: i)
  case 0
  then show ?case by simp
next
  case (Suc d)
  note r = assms(1)[unfolded ranked_def, rule_format]
  show ?case
  proof (cases "par ! i = i")
    case True
    with Suc.prems assms(1) show ?thesis by (simp add: foundRoot_def)
  next
    case False
    let ?j = "par ! i"
    from r[OF Suc.prems] False have j: "?j < length par" "rk i < rk ?j" "rk ?j \<le> bound"
      using r[of ?j] by auto
    from Suc.IH[OF j(1)] consider
      (overflow) "ds_find d par ?j = Inl RangeError" "d \<le> bound - rk ?j"
      | (found) res where "ds_find d par ?j = Inr res" "foundRoot rk bound par ?j res"
      by blast
    then show ?thesis
    proof cases
      case overflow
      with False Suc.prems j show ?thesis by simp
    next
      case found
      obtain r0 par' where res: "res = (r0, par')" by (cases res) auto
      from found(2)[unfolded foundRoot_def res] have f:
        "r0 < length par" "length par' = length par" "par' ! r0 = r0" "rk ?j \<le> rk r0"
        "ranked rk bound par'" "\<forall>k<length par. par ! k = k \<longrightarrow> par' ! k = k"
        by auto
      from j(2) f(4) have lt: "rk i < rk r0" by simp
      then have ne: "r0 \<noteq> i" by auto
      have eq: "ds_find (Suc d) par i = Inr (r0, par'[i := r0])"
        using False Suc.prems found(1) res by simp
      have rk': "ranked rk bound (par'[i := r0])"
        unfolding ranked_def
      proof (intro allI impI)
        fix k assume k: "k < length (par'[i := r0])"
        note rr = f(5)[unfolded ranked_def, rule_format]
        show "par'[i := r0] ! k < length (par'[i := r0]) \<and> rk k \<le> bound \<and>
              (par'[i := r0] ! k \<noteq> k \<longrightarrow> rk k < rk (par'[i := r0] ! k))"
        proof (cases "k = i")
          case True
          with k f(1,2) lt rr[of i] show ?thesis by simp
        next
          case False
          with k rr[of k] show ?thesis by simp
        qed
      qed
      have roots: "\<forall>k<length par. par ! k = k \<longrightarrow> par'[i := r0] ! k = k"
        using f(6) False by (metis nth_list_update_neq)
      have "foundRoot rk bound par i (r0, par'[i := r0])"
        unfolding foundRoot_def using f(1,2,3) ne lt rk' roots by simp
      with eq show ?thesis by blast
    qed
  qed
qed

lemma ds_union_ranked:
  assumes "ranked rk bound (parent ds)" "i < length (parent ds)" "j < length (parent ds)"
  shows "(ds_union d ds i j = Inl RangeError \<and> d \<le> bound)
       \<or> (\<exists>ds' rk'. ds_union d ds i j = Inr ds' \<and> ranked rk' (Suc bound) (parent ds') \<and>
             length (parent ds') = length (parent ds))"
proof -
  from ds_find_ranked[OF assms(1,2), of d] consider
    (overflow) "ds_find d (parent ds) i = Inl RangeError" "d \<le> bound"
    | (found) res where "ds_find d (parent ds) i = Inr res" "foundRoot rk bound (parent ds) i res"
    by force
  then show ?thesis
  proof cases
    case overflow
    then show ?thesis by (simp add: ds_union_def)
  next
    case found
    obtain rootI par1 where res: "res = (rootI, par1)" by (cases res) auto
    from found(2)[unfolded foundRoot_def res] have f1:
      "rootI < length (parent ds)" "length par1 = length (parent ds)" "par1 ! rootI = rootI"
      "ranked rk bound par1"
      by auto
    from assms(3) f1(2) have j1: "j < length par1" by simp
    from ds_find_ranked[OF f1(4) j1, of d] consider
      (overflow2) "ds_find d par1 j = Inl RangeError" "d \<le> bound"
      | (found2) res2 where "ds_find d par1 j = Inr res2" "foundRoot rk bound par1 j res2"
      by force
    then show ?thesis
    proof cases
      case overflow2
      with found(1) res show ?thesis by (simp add: ds_union_def)
    next
      case found2
      obtain rootJ par2 where res2: "res2 = (rootJ, par2)" by (cases res2) auto
      from found2(2)[unfolded foundRoot_def res2] have f2:
        "rootJ < length par1" "length par2 = length par1" "par2 ! rootJ = rootJ"
        "ranked rk bound par2" "\<forall>k<length par1. par1 ! k = k \<longrightarrow> par2 ! k = k"
        by auto
      from f2(5) f1(1,2,3) have rI: "par2 ! rootI = rootI" by simp
      show ?thesis
      proof (cases "rootI = rootJ")
        case True
        then have "ds_union d ds i j = Inr \<lparr>parent = par2, setCount = setCount ds\<rparr>"
          using found(1) res found2(1) res2 by (simp add: ds_union_def)
        moreover have "ranked rk (Suc bound) par2" using f2(4) by (rule ranked_mono) simp
        ultimately show ?thesis using f2(2) f1(2) by auto
      next
        case False
        let ?rk = "rk(rootJ := max (rk rootJ) (Suc (rk rootI)))"
        let ?par = "par2[rootI := rootJ]"
        have eq: "ds_union d ds i j = Inr \<lparr>parent = ?par, setCount = setCount ds - 1\<rparr>"
          using False found(1) res found2(1) res2 by (simp add: ds_union_def)
        note rr = f2(4)[unfolded ranked_def, rule_format]
        have "ranked ?rk (Suc bound) ?par"
          unfolding ranked_def
        proof (intro allI impI)
          fix k assume "k < length ?par"
          then have k: "k < length par2" by simp
          have bI: "rk rootI \<le> bound" using rr[of rootI] f1(1,2) f2(2) by simp
          show "?par ! k < length ?par \<and> ?rk k \<le> Suc bound \<and>
                (?par ! k \<noteq> k \<longrightarrow> ?rk k < ?rk (?par ! k))"
          proof (cases "k = rootI")
            case True
            with k f2(1,2) False bI show ?thesis by simp
          next
            case nI: False
            show ?thesis
            proof (cases "k = rootJ")
              case True
              with k nI f2(3) rr[of k] bI show ?thesis by simp
            next
              case nJ: False
              from rr[OF k] nI nJ k rI show ?thesis
                by (cases "par2 ! k = rootJ") auto
            qed
          qed
        qed
        with eq f2(2) f1(2) show ?thesis by auto
      qed
    qed
  qed
qed

subsection \<open>The loops of an attempt\<close>

lemma map_of_fold_update:
  "map_of (fold (\<lambda>(k, i) m. AList.update k i m) kis m0) k =
     (case map_of (rev kis) k of Some i \<Rightarrow> Some i | None \<Rightarrow> map_of m0 k)"
proof (induction kis arbitrary: m0)
  case Nil
  show ?case by simp
next
  case (Cons ki kis)
  obtain k' i' where ki: "ki = (k', i')" by (cases ki) auto
  show ?case
    unfolding ki by (simp add: Cons.IH update_conv' map_add_def split: option.splits)
qed

lemma nodeIndexMapOf_member:
  assumes "n \<in> set ns"
  shows "\<exists>i<length ns. map_of (nodeIndexMapOf ns) (nodeId n) = Some i"
proof -
  let ?kis = "zip (map nodeId ns) [0..<length ns]"
  from assms have "nodeId n \<in> fst ` set (rev ?kis)" by (force simp: set_zip in_set_conv_nth)
  then obtain i where i: "map_of (rev ?kis) (nodeId n) = Some i"
    by (meson map_of_eq_None_iff not_Some_eq)
  then have "(nodeId n, i) \<in> set ?kis" by (auto dest: map_of_SomeD)
  then have "i < length ns" by (auto simp: set_zip)
  moreover have "map_of (nodeIndexMapOf ns) (nodeId n) = Some i"
    unfolding nodeIndexMapOf_def map_of_fold_update using i by simp
  ultimately show ?thesis by blast
qed

lemma findNode_Some_iff: "(\<exists>n. findNode ns i = Some n) \<longleftrightarrow> i \<in> set (map nodeId ns)"
  by (induction ns) (auto simp: findNode_def)

lemma edgeResolved_candidate:
  "n1 \<in> set ns \<Longrightarrow> n2 \<in> set ns \<Longrightarrow>
   edgeResolved ns \<lparr>nodeA = nodeId n1, nodeB = nodeId n2, count = c\<rparr>"
  by (simp add: edgeResolved_def findNode_Some_iff)

lemma isCrossing_resolved:
  "list_all (edgeResolved ns) es \<Longrightarrow> \<exists>b. isCrossing ns es n1 n2 = Inr b"
  by (induction es) (auto simp: edgeResolved_def)

lemma spanStep_inv:
  assumes inv: "spanInv ns bound st" and pu: "u p \<in> set ns" and pv: "v p \<in> set ns"
  shows "(spanStep rt ns (nodeIndexMapOf ns) p st = Inl RangeError \<and> stackLimit rt \<le> bound)
       \<or> (\<exists>st'. spanStep rt ns (nodeIndexMapOf ns) p st = Inr st' \<and> spanInv ns (Suc bound) st')"
proof -
  obtain es ds pos where st: "st = (es, ds, pos)" by (cases st) auto
  from inv st obtain rk where rk: "ranked rk bound (parent ds)"
    and len: "length (parent ds) = length ns" and res: "list_all (edgeResolved ns) es"
    by (auto simp: spanInv_def)
  from nodeIndexMapOf_member[OF pu] obtain uIdx where
    uI: "uIdx < length ns" "map_of (nodeIndexMapOf ns) (nodeId (u p)) = Some uIdx" by blast
  from nodeIndexMapOf_member[OF pv] obtain vIdx where
    vI: "vIdx < length ns" "map_of (nodeIndexMapOf ns) (nodeId (v p)) = Some vIdx" by blast
  let ?d = "stackLimit rt"
  have step: "spanStep rt ns (nodeIndexMapOf ns) p st =
      (case ds_find ?d (parent ds) uIdx of
         Inl e \<Rightarrow> Inl e
       | Inr (rootU, par1) \<Rightarrow>
      (case ds_find ?d par1 vIdx of
         Inl e \<Rightarrow> Inl e
       | Inr (rootV, par2) \<Rightarrow>
         if rootU \<noteq> rootV then
           (case isCrossing ns es (u p) (v p) of
              Inl e \<Rightarrow> Inl e
            | Inr crossing \<Rightarrow>
               if \<not> crossing then
                 (case ds_union ?d (ds\<lparr>parent := par2\<rparr>) uIdx vIdx of
                    Inl e \<Rightarrow> Inl e
                  | Inr ds' \<Rightarrow>
                     Inr (es @ [\<lparr>nodeA = nodeId (u p), nodeB = nodeId (v p),
                                     count = (if mathRandom rt pos > 7 / 10 then 2 else 1)\<rparr>],
                          ds', pos + 1))
               else Inr (es, ds\<lparr>parent := par2\<rparr>, pos))
         else Inr (es, ds\<lparr>parent := par2\<rparr>, pos)))"
    unfolding spanStep_def st by (simp add: uI vI)
  from ds_find_ranked[OF rk, of uIdx ?d] uI(1) len consider
    (o1) "ds_find ?d (parent ds) uIdx = Inl RangeError" "?d \<le> bound"
    | (f1) r1 where "ds_find ?d (parent ds) uIdx = Inr r1" "foundRoot rk bound (parent ds) uIdx r1"
    by force
  then show ?thesis
  proof cases
    case o1
    with step show ?thesis by simp
  next
    case f1
    obtain rootU par1 where r1: "r1 = (rootU, par1)" by (cases r1) auto
    from f1(2)[unfolded foundRoot_def r1] have p1:
      "length par1 = length (parent ds)" "ranked rk bound par1" by auto
    from ds_find_ranked[OF p1(2), of vIdx ?d] vI(1) len p1(1) consider
      (o2) "ds_find ?d par1 vIdx = Inl RangeError" "?d \<le> bound"
      | (f2) r2 where "ds_find ?d par1 vIdx = Inr r2" "foundRoot rk bound par1 vIdx r2"
      by force
    then show ?thesis
    proof cases
      case o2
      with step f1(1) r1 show ?thesis by simp
    next
      case f2
      obtain rootV par2 where r2: "r2 = (rootV, par2)" by (cases r2) auto
      from f2(2)[unfolded foundRoot_def r2] have p2:
        "length par2 = length par1" "ranked rk bound par2" by auto
      have keep: "spanInv ns (Suc bound) (es, ds\<lparr>parent := par2\<rparr>, pos)"
        using p2 p1(1) len res ranked_mono[OF p2(2), of "Suc bound"]
        by (auto simp: spanInv_def)
      from isCrossing_resolved[OF res, of "u p" "v p"] obtain crossing where
        cr: "isCrossing ns es (u p) (v p) = Inr crossing" by blast
      show ?thesis
      proof (cases "rootU \<noteq> rootV \<and> \<not> crossing")
        case False
        with step f1(1) r1 f2(1) r2 cr keep show ?thesis by auto
      next
        case True
        have rk2: "ranked rk bound (parent (ds\<lparr>parent := par2\<rparr>))" using p2(2) by simp
        have iu: "uIdx < length (parent (ds\<lparr>parent := par2\<rparr>))"
          and iv: "vIdx < length (parent (ds\<lparr>parent := par2\<rparr>))"
          using uI(1) vI(1) p2(1) p1(1) len by simp_all
        from ds_union_ranked[OF rk2 iu iv, of ?d] consider
          (o3) "ds_union ?d (ds\<lparr>parent := par2\<rparr>) uIdx vIdx = Inl RangeError" "?d \<le> bound"
          | (f3) ds' rk' where "ds_union ?d (ds\<lparr>parent := par2\<rparr>) uIdx vIdx = Inr ds'"
              "ranked rk' (Suc bound) (parent ds')"
              "length (parent ds') = length (parent (ds\<lparr>parent := par2\<rparr>))"
          by blast
        then show ?thesis
        proof cases
          case o3
          with step f1(1) r1 f2(1) r2 cr True show ?thesis by simp
        next
          case f3
          let ?e = "\<lparr>nodeA = nodeId (u p), nodeB = nodeId (v p),
                      count = (if mathRandom rt pos > 7 / 10 then 2 else (1::nat))\<rparr>"
          have "spanInv ns (Suc bound) (es @ [?e], ds', pos + 1)"
            using f3(2,3) p2(1) p1(1) len res edgeResolved_candidate[OF pu pv]
            by (auto simp: spanInv_def)
          moreover have "spanStep rt ns (nodeIndexMapOf ns) p st = Inr (es @ [?e], ds', pos + 1)"
            using step f1(1) r1 f2(1) r2 cr True f3(1) by simp
          ultimately show ?thesis by blast
        qed
      qed
    qed
  qed
qed

lemma spanInv_mono: "spanInv ns b st \<Longrightarrow> b \<le> b' \<Longrightarrow> spanInv ns b' st"
  unfolding spanInv_def by (auto intro: ranked_mono split: prod.splits)

lemma spanLoop_inv:
  assumes "spanInv ns bound st" "\<forall>p\<in>set ps. u p \<in> set ns \<and> v p \<in> set ns"
  shows "(spanLoop rt ns (nodeIndexMapOf ns) ps st = Inl RangeError
            \<and> stackLimit rt \<le> bound + length ps)
       \<or> (\<exists>st'. spanLoop rt ns (nodeIndexMapOf ns) ps st = Inr st'
            \<and> spanInv ns (bound + length ps) st')"
  using assms
proof (induction ps arbitrary: bound st)
  case Nil
  then show ?case by simp
next
  case (Cons p ps)
  from Cons.prems(2) have pu: "u p \<in> set ns" and pv: "v p \<in> set ns" by simp_all
  from spanStep_inv[OF Cons.prems(1) pu pv, of rt] consider
    (o) "spanStep rt ns (nodeIndexMapOf ns) p st = Inl RangeError" "stackLimit rt \<le> bound"
    | (s) st1 where "spanStep rt ns (nodeIndexMapOf ns) p st = Inr st1" "spanInv ns (Suc bound) st1"
    by blast
  then show ?case
  proof cases
    case o
    then show ?thesis by simp
  next
    case s
    from Cons.IH[OF s(2)] Cons.prems(2) s(1) show ?thesis by simp
  qed
qed

lemma extraLoop_ok:
  assumes "list_all (edgeResolved ns) (fst st)" "\<forall>p\<in>set ps. u p \<in> set ns \<and> v p \<in> set ns"
  shows "\<exists>st'. extraLoop rt ns target ps st = Inr st' \<and> list_all (edgeResolved ns) (fst st')"
  using assms
proof (induction ps arbitrary: st)
  case Nil
  then show ?case by simp
next
  case (Cons p ps)
  obtain es added pos where st: "st = (es, added, pos)" by (cases st) auto
  let ?new = "(es @ [\<lparr>nodeA = nodeId (u p), nodeB = nodeId (v p),
                      count = (if mathRandom rt pos > 6 / 10 then 2 else 1)\<rparr>],
               added + 1, pos + 1)"
  let ?dup = "list_ex (\<lambda>e. (nodeA e = nodeId (u p) \<and> nodeB e = nodeId (v p)) \<or>
                              (nodeA e = nodeId (v p) \<and> nodeB e = nodeId (u p))) es"
  from Cons.prems(1) st have res: "list_all (edgeResolved ns) es" by simp
  from isCrossing_resolved[OF res, of "u p" "v p"] obtain crossing where
    cr: "isCrossing ns es (u p) (v p) = Inr crossing" by blast
  have step: "extraLoop rt ns target (p # ps) st =
      (if added \<ge> target then Inr st
       else if ?dup then extraLoop rt ns target ps st
       else if \<not> crossing then extraLoop rt ns target ps ?new
       else extraLoop rt ns target ps st)"
    unfolding st by (simp add: cr)
  from Cons.prems(2) have pu: "u p \<in> set ns" and pv: "v p \<in> set ns"
    and rest: "\<forall>p\<in>set ps. u p \<in> set ns \<and> v p \<in> set ns" by simp_all
  have new: "list_all (edgeResolved ns) (fst ?new)"
    using res edgeResolved_candidate[OF pu pv] by simp
  let ?good = "\<lambda>r. \<exists>st'. r = Inr st' \<and> list_all (edgeResolved ns) (fst st')"
  have a: "?good (extraLoop rt ns target ps st)" by (rule Cons.IH[OF Cons.prems(1) rest])
  have b: "?good (extraLoop rt ns target ps ?new)" by (rule Cons.IH[OF new rest])
  have c: "?good (Inr st)" using Cons.prems(1) by blast
  have "?good (if added \<ge> target then Inr st
       else if ?dup then extraLoop rt ns target ps st
       else if \<not> crossing then extraLoop rt ns target ps ?new
       else extraLoop rt ns target ps st)"
    using a b c by (simp only: if_split[where P = ?good]) blast
  then show ?case by (simp only: step)
qed

lemma map_nodeId_addRequired: "map nodeId (addRequired i c ns) = map nodeId ns"
  by (induction ns) auto

lemma pruneStep_ok:
  assumes "nodeA e \<in> set (map nodeId ns)" "nodeB e \<in> set (map nodeId ns)"
  shows "\<exists>st'. pruneStep m e (ns, valid) = Inr st' \<and> map nodeId (fst st') = map nodeId ns"
proof -
  from assms obtain nA nB where "findNode ns (nodeA e) = Some nA" "findNode ns (nodeB e) = Some nB"
    using findNode_Some_iff by metis
  then show ?thesis
    by (simp add: pruneStep_def map_nodeId_addRequired)
qed

lemma pruneLoop_ok:
  assumes "\<forall>e\<in>set es. nodeA e \<in> set (map nodeId (fst st)) \<and> nodeB e \<in> set (map nodeId (fst st))"
  shows "\<exists>st'. pruneLoop m es st = Inr st'"
  using assms
proof (induction es arbitrary: st)
  case Nil
  show ?case by simp
next
  case (Cons e es)
  from pruneStep_ok[of e "fst st" m "snd st"] Cons.prems obtain st1 where
    s1: "pruneStep m e st = Inr st1" "map nodeId (fst st1) = map nodeId (fst st)"
    by auto
  with Cons.IH[of st1] Cons.prems show ?case by simp
qed

lemma length_permuteBy: "length (permuteBy c xs) = length xs"
proof (induction c xs rule: permuteBy.induct)
  case (1 c xs)
  show ?case
  proof (cases "xs = []")
    case True
    then show ?thesis by (subst permuteBy.simps) simp
  next
    case False
    let ?i = "c (length xs) mod length xs"
    from False have i: "?i < length xs" by simp
    have "length (permuteBy c (take ?i xs @ drop (Suc ?i) xs)) = length (take ?i xs @ drop (Suc ?i) xs)"
      using "1.IH"[OF False refl] .
    moreover have "permuteBy c xs = xs ! ?i # permuteBy c (take ?i xs @ drop (Suc ?i) xs)"
      using False by (subst permuteBy.simps) (simp add: Let_def)
    ultimately show ?thesis using i by simp
  qed
qed

lemma length_concat_le:
  "(\<And>a. a \<in> set xs \<Longrightarrow> length (f a) \<le> c) \<Longrightarrow> length (concat (map f xs)) \<le> c * length xs"
  by (induction xs) (auto simp: add_mono)

lemma length_potentialEdgesOf: "length (potentialEdgesOf ns) \<le> length ns * length ns"
proof -
  let ?inner = "\<lambda>i j. (let n1 = ns ! i; n2 = ns ! j
         in if x n1 \<noteq> x n2 \<and> y n1 \<noteq> y n2 then []
            else if isNodeBetween n1 n2 ns then []
            else [\<lparr>u = n1, v = n2, dist = \<bar>x n1 - x n2\<bar> + \<bar>y n1 - y n2\<bar>\<rparr>])"
  have one: "length (?inner i j) \<le> 1" for i j by (simp add: Let_def)
  have row: "length (concat (map (?inner i) [i + 1..<length ns])) \<le> length ns" for i
  proof -
    have "length (concat (map (?inner i) [i + 1..<length ns])) \<le> 1 * length [i + 1..<length ns]"
      by (rule length_concat_le) (rule one)
    then show ?thesis by simp
  qed
  have "length (concat (map (\<lambda>i. concat (map (?inner i) [i + 1..<length ns])) [0..<length ns]))
        \<le> length ns * length [0..<length ns]"
    by (rule length_concat_le) (rule row)
  then show ?thesis unfolding potentialEdgesOf_def by simp
qed

lemma placeNodes_length_upt:
  "length (fst (fold (\<lambda>i st. placeLoop rt grid i False 0 st) [a..<a + k] st)) \<le> length (fst st) + k"
proof (induction k)
  case 0
  show ?case by simp
next
  case (Suc k)
  let ?st = "fold (\<lambda>i st. placeLoop rt grid i False 0 st) [a..<a + k] st"
  have "[a..<a + Suc k] = [a..<a + k] @ [a + k]" by simp
  then have "fold (\<lambda>i st. placeLoop rt grid i False 0 st) [a..<a + Suc k] st
           = placeLoop rt grid (a + k) False 0 ?st"
    by (simp del: upt_Suc)
  moreover have "length (fst (placeLoop rt grid (a + k) False 0 ?st)) \<le> length (fst ?st) + 1"
    using placeLoop_ids[OF refl, of rt grid "a + k" False 0 ?st] by auto
  ultimately show ?case using Suc by simp
qed

lemma placeNodes_length:
  "length (fst (placeNodes rt grid numNodes ([], [], pos))) \<le> nat numNodes"
  using placeNodes_length_upt[of rt grid 0 "nat numNodes" "([], [], pos)"]
  by (simp add: placeNodes_def)

subsection \<open>The outcome of an attempt\<close>

lemma edgeResolved_ids:
  "edgeResolved ns e \<longleftrightarrow> nodeA e \<in> set (map nodeId ns) \<and> nodeB e \<in> set (map nodeId ns)"
  unfolding edgeResolved_def using findNode_Some_iff by (metis not_Some_eq)

lemma candidateOf_member:
  assumes "candidateOf ns p"
  shows "u p \<in> set ns \<and> v p \<in> set ns"
proof -
  from assms obtain i j where "i < j" "j < length ns" "u p = ns ! i" "v p = ns ! j"
    by (auto simp: candidateOf_def)
  then show ?thesis by auto
qed

lemma tryGenerate_outcome:
  fixes rt grid nodeRange maxConn
  defines "N \<equiv> nat (\<lfloor>mathRandom rt 0 * of_int (snd nodeRange - fst nodeRange + 1)\<rfloor>
                      + fst nodeRange)"
  shows "(\<exists>msg. tryGenerate rt grid nodeRange maxConn = Inl (Error msg))
       \<or> (tryGenerate rt grid nodeRange maxConn = Inl RangeError \<and> stackLimit rt \<le> N * N)
       \<or> (\<exists>p. tryGenerate rt grid nodeRange maxConn = Inr p)"
proof -
  let ?numNodes = "\<lfloor>mathRandom rt 0 * of_int (snd nodeRange - fst nodeRange + 1)\<rfloor> + fst nodeRange"
  obtain placed occupied pos1 where pl:
    "placeNodes rt grid ?numNodes ([], [], 1) = (placed, occupied, pos1)"
    by (cases "placeNodes rt grid ?numNodes ([], [], 1)") auto
  have lenN: "length placed \<le> N"
    using placeNodes_length[of rt grid ?numNodes 1] pl by (simp add: N_def)
  let ?cands = "permuteBy (sortOrder rt) (potentialEdgesOf placed)"
  let ?idx = "nodeIndexMapOf placed"
  let ?span = "spanLoop rt placed ?idx ?cands ([], newDisjointSet (length placed), pos1)"
  have unfold: "tryGenerate rt grid nodeRange maxConn =
     (if int (length placed) < fst nodeRange then Inl (Error ''Not enough nodes placed'')
      else case ?span of
             Inl e \<Rightarrow> Inl e
           | Inr (treeEdges, ds, pos2) \<Rightarrow>
              if setCount ds > 1 then Inl (Error ''Graph not connected'')
              else
                (case extraLoop rt placed \<lfloor>of_nat (length treeEdges) * (3 / 10 :: real)\<rfloor> ?cands
                           (treeEdges, 0, pos2) of
                   Inl e \<Rightarrow> Inl e
                 | Inr (allEdges, addedExtra, pos3) \<Rightarrow>
                    (case pruneLoop maxConn allEdges
                            (map (\<lambda>n. n\<lparr>requiredConnections := 0\<rparr>) placed, []) of
                       Inl e \<Rightarrow> Inl e
                     | Inr (finalNodes, validEdges) \<Rightarrow>
                        if list_ex (\<lambda>n. requiredConnections n = 0) finalNodes
                        then Inl (Error ''Isolated node'')
                        else Inr \<lparr>nodes = finalNodes, solutionEdges = validEdges\<rparr>)))"
    unfolding tryGenerate_def Let_def pl by simp
  show ?thesis
  proof (cases "int (length placed) < fst nodeRange")
    case True
    with unfold show ?thesis by simp
  next
    case enough: False
    have cm: "\<forall>p\<in>set ?cands. u p \<in> set placed \<and> v p \<in> set placed"
      using potentialEdgesOf_candidate[of _ placed] candidateOf_member[of placed]
      by (simp add: set_permuteBy)
    have "ranked (\<lambda>i. 0) 0 [0..<length placed]" by (simp add: ranked_def)
    then have init: "spanInv placed 0 ([], newDisjointSet (length placed), pos1)"
      unfolding spanInv_def newDisjointSet_def by auto
    have lc: "length ?cands \<le> N * N"
      using length_potentialEdgesOf[of placed] lenN
      by (simp add: length_permuteBy) (meson le_trans mult_le_mono)
    from spanLoop_inv[OF init cm, of rt] consider
      (overflow) "?span = Inl RangeError" "stackLimit rt \<le> length ?cands"
      | (tree) st' where "?span = Inr st'" "spanInv placed (length ?cands) st'"
      by auto
    then show ?thesis
    proof cases
      case overflow
      with unfold enough lc show ?thesis by simp
    next
      case tree
      obtain treeEdges ds pos2 where st': "st' = (treeEdges, ds, pos2)" by (cases st') auto
      from tree(2) st' have tr: "list_all (edgeResolved placed) (fst (treeEdges, 0::int, pos2))"
        by (simp add: spanInv_def)
      show ?thesis
      proof (cases "setCount ds > 1")
        case True
        with unfold enough tree(1) st' show ?thesis by simp
      next
        case connected: False
        from extraLoop_ok[OF tr cm, of rt "\<lfloor>of_nat (length treeEdges) * (3 / 10 :: real)\<rfloor>"]
        obtain st2 where ex: "extraLoop rt placed \<lfloor>of_nat (length treeEdges) * (3 / 10 :: real)\<rfloor>
             ?cands (treeEdges, 0, pos2) = Inr st2" "list_all (edgeResolved placed) (fst st2)"
          by blast
        obtain allEdges added pos3 where st2: "st2 = (allEdges, added, pos3)" by (cases st2) auto
        let ?zero = "map (\<lambda>n. n\<lparr>requiredConnections := 0\<rparr>) placed"
        have "map nodeId ?zero = map nodeId placed" by simp
        with ex(2) st2 have "\<forall>e\<in>set allEdges.
            nodeA e \<in> set (map nodeId (fst (?zero, [] :: EdgeData list))) \<and>
            nodeB e \<in> set (map nodeId (fst (?zero, [] :: EdgeData list)))"
          by (simp add: list_all_iff edgeResolved_ids)
        from pruneLoop_ok[OF this, of maxConn] obtain st3 where
          pr: "pruneLoop maxConn allEdges (?zero, []) = Inr st3" by blast
        obtain finalNodes validEdges where st3: "st3 = (finalNodes, validEdges)" by (cases st3) auto
        from unfold enough tree(1) st' connected ex(1) st2 pr st3 show ?thesis
          by (cases "list_ex (\<lambda>n. requiredConnections n = 0) finalNodes") simp_all
      qed
    qed
  qed
qed

lemma tryGenerate_never_undefined: "tryGenerate rt grid nodeRange maxConn \<noteq> Inl TypeError"
  using tryGenerate_outcome[of rt grid nodeRange maxConn] by auto

lemma tryGenerate_enough_stack:
  assumes "nat (\<lfloor>mathRandom rt 0 * of_int (snd nodeRange - fst nodeRange + 1)\<rfloor> + fst nodeRange)
           * nat (\<lfloor>mathRandom rt 0 * of_int (snd nodeRange - fst nodeRange + 1)\<rfloor> + fst nodeRange)
           < stackLimit rt"
  shows "tryGenerate rt grid nodeRange maxConn \<noteq> Inl RangeError"
  using tryGenerate_outcome[of rt grid nodeRange maxConn] assms by auto

lemma numNodes_le_max:
  fixes r :: real
  assumes "0 \<le> r" "r < 1" "lo \<le> hi"
  shows "\<lfloor>r * of_int (hi - lo + 1)\<rfloor> + lo \<le> hi"
proof -
  have c: "0 < (of_int (hi - lo + 1) :: real)" using assms(3) by simp
  have "r * of_int (hi - lo + 1) < 1 * of_int (hi - lo + 1)"
    using assms(2) c by (rule mult_strict_right_mono)
  then have "r * of_int (hi - lo + 1) < of_int (hi - lo + 1)" by simp
  then have "\<lfloor>r * of_int (hi - lo + 1)\<rfloor> < hi - lo + 1" by (simp only: floor_less_iff)
  then show ?thesis by simp
qed

lemma generate_stack_room:
  assumes "0 \<le> mathRandom rt 0" "mathRandom rt 0 < 1" "324 < stackLimit rt"
  shows "tryGenerate rt (gridSize (DIFFICULTY_SETTINGS d)) (nodeCount (DIFFICULTY_SETTINGS d))
           (maxConnections (DIFFICULTY_SETTINGS d)) \<noteq> Inl RangeError"
proof -
  let ?nr = "nodeCount (DIFFICULTY_SETTINGS d)"
  let ?num = "\<lfloor>mathRandom rt 0 * of_int (snd ?nr - fst ?nr + 1)\<rfloor> + fst ?nr"
  have "fst ?nr \<le> snd ?nr" "snd ?nr \<le> 18" by (cases d; simp)+
  with numNodes_le_max[OF assms(1,2), of "fst ?nr" "snd ?nr"] have "?num \<le> 18" by simp
  then have n: "nat ?num \<le> 18" by simp
  from n n have "nat ?num * nat ?num \<le> 18 * 18" by (rule mult_le_mono)
  with assms(3) have "nat ?num * nat ?num < stackLimit rt" by simp
  then show ?thesis by (rule tryGenerate_enough_stack)
qed

subsection \<open>The ids of a generated puzzle\<close>

lemma digitChar_digit: "d < 10 \<Longrightarrow> digitChar d \<in> set ''0123456789''"
  unfolding digitChar_def by (rule nth_mem) simp

lemma digits_chars: "set (digits n) \<subseteq> set ''0123456789''"
proof (induction n rule: digits.induct)
  case (1 n)
  show ?case
  proof (cases "n < 10")
    case True
    with digitChar_digit[of n] show ?thesis by (subst digits.simps) simp
  next
    case False
    have "n mod 10 < 10" by simp
    from digitChar_digit[OF this] "1.IH"[OF False] False show ?thesis
      by (subst digits.simps) simp
  qed
qed

lemma plainId_idOf: "plainId (idOf i)"
  using digits_chars[of i] by (auto simp: plainId_def idOf_def)

lemma pruneLoop_ids:
  "pruneLoop m es st = Inr st' \<Longrightarrow> map nodeId (fst st') = map nodeId (fst st)"
proof (induction es arbitrary: st)
  case Nil
  then show ?case by simp
next
  case (Cons e es)
  from Cons.prems obtain st1 where s1: "pruneStep m e st = Inr st1"
    and rest: "pruneLoop m es st1 = Inr st'"
    by (auto split: sum.splits)
  have "map nodeId (fst st1) = map nodeId (fst st)"
    using s1 unfolding pruneStep_def
    by (auto simp: map_nodeId_addRequired split: prod.splits option.splits if_splits)
  with Cons.IH[OF rest] show ?case by simp
qed

lemma placeNodes_idsBelow:
  "idsBelow (nat numNodes) (fst (placeNodes rt grid numNodes ([], [], pos)))"
proof -
  have "idsBelow 0 (fst (([], [], pos) :: placement))" by (simp add: idsBelow_def)
  from placeNodes_idsBelow_upt[OF this, of "nat numNodes" rt grid]
  show ?thesis by (simp add: placeNodes_def)
qed

lemma tryGenerate_ids:
  assumes "tryGenerate rt grid nodeRange maxConn = Inr p"
  shows "distinct (map nodeId (nodes p)) \<and> (\<forall>n\<in>set (nodes p). plainId (nodeId n))"
proof -
  let ?numNodes = "\<lfloor>mathRandom rt 0 * of_int (snd nodeRange - fst nodeRange + 1)\<rfloor> + fst nodeRange"
  obtain placed occupied pos1 where pl:
    "placeNodes rt grid ?numNodes ([], [], 1) = (placed, occupied, pos1)"
    by (cases "placeNodes rt grid ?numNodes ([], [], 1)") auto
  have below: "idsBelow (nat ?numNodes) placed"
    using placeNodes_idsBelow[of ?numNodes rt grid 1] pl by simp
  from assms pl obtain allEdges validEdges where
    prune: "pruneLoop maxConn allEdges
              (map (\<lambda>n. n\<lparr>requiredConnections := 0\<rparr>) placed, []) = Inr (nodes p, validEdges)"
    unfolding tryGenerate_def Let_def
    by (auto split: if_splits sum.splits prod.splits)
  from pruneLoop_ids[OF prune] have ids: "map nodeId (nodes p) = map nodeId placed"
    by (simp add: comp_def)
  have "\<forall>i\<in>set (map nodeId placed). plainId i"
    using below plainId_idOf by (auto simp: idsBelow_def)
  with ids below show ?thesis
    unfolding idsBelow_def by (metis image_eqI list.set_map)
qed

lemma generate_ids:
  "distinct (map nodeId (nodes (generate d rts)))
   \<and> (\<forall>n\<in>set (nodes (generate d rts)). plainId (nodeId n))"
proof -
  let ?s = "DIFFICULTY_SETTINGS d"
  from generateLoop_cases[of ?s rts 0]
  consider "generate d rts = createFallbackPuzzle"
    | j where "tryGenerate (rts j) (gridSize ?s) (nodeCount ?s) (maxConnections ?s)
                = Inr (generate d rts)"
    unfolding generate_def by blast
  then show ?thesis
  proof cases
    case 1
    then show ?thesis by (simp add: createFallbackPuzzle_def plainId_def)
  next
    case 2
    then show ?thesis by (rule tryGenerate_ids)
  qed
qed

end
